theory Spec2Isabelle
  imports Main "HOL-Library.Sublist"
begin

section \<open>The Expo sourcemap upload script (\<^verbatim>\<open>scripts/expo-upload-sourcemaps.js\<close>)\<close>

text \<open>
  The script walks a build output directory, groups bundles, bytecode files and sourcemaps,
  matches the groups against the update records of \<^verbatim>\<open>eas-update-metadata.json\<close>, copies
  every matched group into \<^verbatim>\<open><root>/.tmp\<close> under a new name and calls \<^verbatim>\<open>sentry-cli\<close>
  once for each group found in \<^verbatim>\<open>.tmp\<close>.

  JavaScript strings are modelled as \<^typ>\<open>string\<close>; \<^verbatim>\<open>endsWith\<close> is \<^const>\<open>suffix\<close> and
  \<^verbatim>\<open>includes\<close> is \<^const>\<open>sublist\<close>.
\<close>

subsection \<open>Constants of the script\<close>

definition SENTRY_PROJECT :: string where
  "SENTRY_PROJECT = ''SENTRY_PROJECT''"

definition SENTRY_AUTH_TOKEN :: string where
  "SENTRY_AUTH_TOKEN = ''SENTRY_AUTH_TOKEN''"

definition SENTRY_CLI :: string where
  "SENTRY_CLI = ''node_modules/@sentry/cli/bin/sentry-cli''"

definition TMP_DIR :: string where
  "TMP_DIR = ''.tmp''"

subsection \<open>Node's POSIX \<^verbatim>\<open>path\<close> module\<close>

text \<open>
  The script uses \<^verbatim>\<open>path.join\<close>, \<^verbatim>\<open>path.parse\<close>, \<^verbatim>\<open>path.format\<close> and
  \<^verbatim>\<open>path.extname\<close>. They belong to Node, not to the repository; the definitions
  below follow the POSIX variant of the module: a path is split at \<^verbatim>\<open>/\<close>, empty and
  \<^verbatim>\<open>.\<close> segments are dropped and a \<^verbatim>\<open>..\<close> segment removes the segment before it.
\<close>

fun split_slash :: "string \<Rightarrow> string list" where
  "split_slash [] = [[]]"
| "split_slash (c # cs) =
     (if c = CHR ''/'' then [] # split_slash cs
      else (case split_slash cs of [] \<Rightarrow> [[c]] | s # ss \<Rightarrow> (c # s) # ss))"

fun join_slash :: "string list \<Rightarrow> string" where
  "join_slash [] = []"
| "join_slash [s] = s"
| "join_slash (s # t # ss) = s @ CHR ''/'' # join_slash (t # ss)"

text \<open>
  One step of \<^verbatim>\<open>normalizeString\<close>. The segments kept so far are held as a stack, the
  last one first. With \<open>allowAboveRoot\<close> (a relative path) a \<^verbatim>\<open>..\<close> that has nothing to
  remove is kept.
\<close>

definition norm_step :: "bool \<Rightarrow> string list \<Rightarrow> string \<Rightarrow> string list" where
  "norm_step allowAboveRoot st seg =
     (if seg = [] \<or> seg = ''.'' then st
      else if seg = ''..'' then
        (case st of
           [] \<Rightarrow> if allowAboveRoot then [''..''] else []
         | t # ts \<Rightarrow> if t = ''..'' then (if allowAboveRoot then ''..'' # st else st) else ts)
      else seg # st)"

definition norm_segs :: "bool \<Rightarrow> string list \<Rightarrow> string list" where
  "norm_segs allowAboveRoot segs = rev (foldl (norm_step allowAboveRoot) [] segs)"

definition path_normalize :: "string \<Rightarrow> string" where
  "path_normalize p =
     (if p = [] then ''.''
      else
        let isAbsolute = (hd p = CHR ''/'');
            trailingSeparator = (last p = CHR ''/'');
            r = join_slash (norm_segs (\<not> isAbsolute) (split_slash p))
        in if r = [] then (if isAbsolute then ''/'' else if trailingSeparator then ''./'' else ''.'')
           else (if isAbsolute then ''/'' else []) @ r @ (if trailingSeparator then ''/'' else []))"

definition path_join :: "string list \<Rightarrow> string" where
  "path_join args =
     (let parts = filter (\<lambda>a. a \<noteq> []) args
      in if parts = [] then ''.'' else path_normalize (join_slash parts))"

record parsed_path =
  root :: string
  dir :: string
  base :: string
  ext :: string
  name :: string

definition strip_slashes :: "string \<Rightarrow> string" where
  "strip_slashes s = rev (dropWhile (\<lambda>c. c = CHR ''/'') (rev s))"

definition last_segment :: "string \<Rightarrow> string" where
  "last_segment s = rev (takeWhile (\<lambda>c. c \<noteq> CHR ''/'') (rev s))"

definition before_last_segment :: "string \<Rightarrow> string" where
  "before_last_segment s = rev (drop 1 (dropWhile (\<lambda>c. c \<noteq> CHR ''/'') (rev s)))"

text \<open>
  The extension of a last path segment: the text from its last dot on, unless there is
  no dot, the last dot is the first character, or the segment is \<^verbatim>\<open>..\<close>.
\<close>

definition ext_of_base :: "string \<Rightarrow> string" where
  "ext_of_base b =
     (if CHR ''.'' \<notin> set b then []
      else
        let startDot = length b - length (takeWhile (\<lambda>c. c \<noteq> CHR ''.'') (rev b)) - 1
        in if startDot = 0 \<or> b = ''..'' then [] else drop startDot b)"

definition path_extname :: "string \<Rightarrow> string" where
  "path_extname p = ext_of_base (last_segment (strip_slashes p))"

definition path_parse :: "string \<Rightarrow> parsed_path" where
  "path_parse p =
     (if p = [] then \<lparr>root = [], dir = [], base = [], ext = [], name = []\<rparr>
      else
        let isAbsolute = (hd p = CHR ''/'');
            rt = (if isAbsolute then ''/'' else []);
            body = strip_slashes (if isAbsolute then tl p else p);
            b = last_segment body;
            e = ext_of_base b;
            d = (if CHR ''/'' \<in> set body then rt @ before_last_segment body else rt)
        in \<lparr>root = rt, dir = d, base = b, ext = e, name = take (length b - length e) b\<rparr>)"

definition path_format :: "parsed_path \<Rightarrow> string" where
  "path_format pathObject =
     (let d = (if dir pathObject \<noteq> [] then dir pathObject else root pathObject);
          b = (if base pathObject \<noteq> [] then base pathObject
               else name pathObject @ ext pathObject)
      in if d = [] then b
         else if d = root pathObject then d @ b
         else d @ ''/'' @ b)"

text \<open>
  The name of a directory entry; a path given by its segments; and the paths the walker
  hands to the grouper: results of \<^verbatim>\<open>path.join\<close>, hence normalised, whose last segment
  is the name of an asset.
\<close>

definition valid_name :: "string \<Rightarrow> bool" where
  "valid_name n = (n \<noteq> [] \<and> CHR ''/'' \<notin> set n \<and> n \<noteq> ''.'' \<and> n \<noteq> ''..'')"

definition render_path :: "bool \<Rightarrow> string list \<Rightarrow> string" where
  "render_path isAbsolute segs = (if isAbsolute then ''/'' else []) @ join_slash segs"

subsection \<open>JavaScript objects used as dictionaries\<close>

text \<open>
  \<^verbatim>\<open>groups\<close> and \<^verbatim>\<open>runtimesByAssetGroup\<close> are object literals \<^verbatim>\<open>{}\<close> indexed by strings.
  An object is modelled by the list of its own properties in creation order. Three things
  of JavaScript are kept, since the script's keys are file paths and manifest text:
  \<^item> \<^verbatim>\<open>obj[k]\<close> finds the members of \<^verbatim>\<open>Object.prototype\<close> when \<open>k\<close> is not an own property;
  \<^item> \<^verbatim>\<open>Object.keys\<close> and \<^verbatim>\<open>Object.entries\<close> list the keys that are array indices first,
    in ascending numeric order, and the other keys in creation order;
  \<^item> assigning a string to \<^verbatim>\<open>obj['__proto__']\<close> creates no property.
\<close>

type_synonym 'v js_object = "(string \<times> 'v) list"

datatype 'v js_value = Own 'v | Inherited | Undefined

definition Object_prototype_names :: "string list" where
  "Object_prototype_names =
     [''constructor'', ''__defineGetter__'', ''__defineSetter__'', ''hasOwnProperty'',
      ''__lookupGetter__'', ''__lookupSetter__'', ''isPrototypeOf'', ''propertyIsEnumerable'',
      ''toString'', ''valueOf'', ''__proto__'', ''toLocaleString'']"

definition js_get :: "'v js_object \<Rightarrow> string \<Rightarrow> 'v js_value" where
  "js_get obj k =
     (case map_of obj k of
        Some v \<Rightarrow> Own v
      | None \<Rightarrow> if k \<in> set Object_prototype_names then Inherited else Undefined)"

definition js_set :: "'v js_object \<Rightarrow> string \<Rightarrow> 'v \<Rightarrow> 'v js_object" where
  "js_set obj k v =
     (if k = ''__proto__'' then obj
      else if k \<in> fst ` set obj then map (\<lambda>(k', v'). if k' = k then (k', v) else (k', v')) obj
      else obj @ [(k, v)])"

definition digit_value :: "char \<Rightarrow> int" where
  "digit_value c = of_char c - 48"

definition isDigit :: "char \<Rightarrow> bool" where
  "isDigit c = (48 \<le> (of_char c :: int) \<and> (of_char c :: int) \<le> 57)"

definition decimal_value :: "string \<Rightarrow> int" where
  "decimal_value s = foldl (\<lambda>n c. 10 * n + digit_value c) 0 s"

definition isArrayIndex :: "string \<Rightarrow> bool" where
  "isArrayIndex s =
     (s \<noteq> [] \<and> list_all isDigit s \<and>
      (hd s = CHR ''0'' \<longrightarrow> s = ''0'') \<and> decimal_value s \<le> 4294967294)"

definition js_entries :: "'v js_object \<Rightarrow> (string \<times> 'v) list" where
  "js_entries obj =
     sort_key (\<lambda>kv. decimal_value (fst kv)) (filter (\<lambda>kv. isArrayIndex (fst kv)) obj)
     @ filter (\<lambda>kv. \<not> isArrayIndex (fst kv)) obj"

definition js_keys :: "'v js_object \<Rightarrow> string list" where
  "js_keys obj = map fst (js_entries obj)"

subsection \<open>Console output\<close>

text \<open>The lines the script writes with \<^verbatim>\<open>console.log\<close> and \<^verbatim>\<open>console.error\<close>, one
  constructor for each call site, carrying the value the line interpolates.\<close>

datatype json =
    JNull
  | JBool bool
  | JNumber int
  | JString string
  | JArray "json list"
  | JObject "(string \<times> json) list"

datatype message =
    FetchingProjectFromExpoConfig
  | ErrorFetchingExpoConfig
  | CouldNotFetchPluginProperties
  | ProjectResolvedFromExpoConfig "json option"
  | AuthTokenMustBeSet
  | ProvideTheDirectory
  | ExampleInvocation
  | FailedToDeleteTmpDirectory
  | ErrorReadingOrParsingJSON
  | CouldNotFindCodeAssetsFor string
  | UploadedSuccessfully

subsection \<open>Classifying and grouping assets\<close>

datatype js_error =
    TypeError
  | FileDoesNotExist string
  | SyntaxError
  | ENOENT string
  | ENOTDIR string
  | EISDIR string
  | EINVAL string
  | EACCES string
  | EPERM string
  | EBUSY string
  | CommandFailed

definition isAsset :: "string \<Rightarrow> bool" where
  "isAsset filename =
     (suffix ''.map'' filename \<or> suffix ''.js'' filename \<or> suffix ''.hbc'' filename)"

text \<open>
  The paths the walker hands to the grouper are results of \<^verbatim>\<open>path.join\<close>, hence
  normalised, and their last segment is the name of an asset.
\<close>

definition artifact_path :: "string \<Rightarrow> bool" where
  "artifact_path p = (path_normalize p = p \<and> isAsset (last_segment p))"

text \<open>
  The group key in the words of the specification: the path with its extension removed
  when the extension is \<^verbatim>\<open>.map\<close>, the unchanged path otherwise.
\<close>

definition spec_group_key :: "string \<Rightarrow> string" where
  "spec_group_key p = (if path_extname p = ''.map'' then take (length p - 4) p else p)"

definition assetGroupName :: "string \<Rightarrow> string" where
  "assetGroupName assetPath =
     (let parsedPath = path_parse assetPath;
          extname = ext parsedPath
      in if extname = ''.map'' then path_join [dir parsedPath, name parsedPath]
         else path_format parsedPath)"

text \<open>
  The loop of \<^verbatim>\<open>groupAssets\<close>. \<^verbatim>\<open>!groups[assetGroupName]\<close> is true only when the lookup is
  undefined: an array is truthy, and so is an inherited member of \<^verbatim>\<open>Object.prototype\<close>,
  on which \<^verbatim>\<open>push\<close> is not a function.
\<close>

fun groupAssets_loop :: "string list js_object \<Rightarrow> string list \<Rightarrow> js_error + string list js_object" where
  "groupAssets_loop groups [] = Inr groups"
| "groupAssets_loop groups (assetPath # rest) =
     (case js_get groups (assetGroupName assetPath) of
        Undefined \<Rightarrow> groupAssets_loop (js_set groups (assetGroupName assetPath) [assetPath]) rest
      | Own files \<Rightarrow>
          groupAssets_loop (js_set groups (assetGroupName assetPath) (files @ [assetPath])) rest
      | Inherited \<Rightarrow> Inl TypeError)"

definition groupAssets :: "string list \<Rightarrow> js_error + string list js_object" where
  "groupAssets assetPaths = groupAssets_loop [] assetPaths"

subsection \<open>The file system\<close>

text \<open>
  The file system is a tree whose root is the working directory of the process; a
  directory lists its entries in the order \<^verbatim>\<open>readdirSync\<close> returns them. There are no
  permissions, links or devices other than \<open>Special\<close> entries (neither file nor
  directory). A path is resolved segment by segment from the root.
\<close>

datatype node = File string | Dir "(string \<times> node) list" | Special

text \<open>A well-formed tree: the names in a directory are distinct, non-empty, without
  \<^verbatim>\<open>/\<close>, and none is \<^verbatim>\<open>.\<close> or \<^verbatim>\<open>..\<close>.\<close>

fun wf_node :: "node \<Rightarrow> bool" where
  "wf_node (Dir items) =
     (distinct (map fst items) \<and> (\<forall>item \<in> set items. valid_name (fst item) \<and> wf_node (snd item)))"
| "wf_node n = True"

definition resolve :: "string \<Rightarrow> string list" where
  "resolve p = norm_segs False (split_slash p)"

fun lookup :: "node \<Rightarrow> string list \<Rightarrow> node option" where
  "lookup n [] = Some n"
| "lookup (Dir items) (s # ss) =
     (case map_of items s of None \<Rightarrow> None | Some child \<Rightarrow> lookup child ss)"
| "lookup n (s # ss) = None"

text \<open>\<open>blocked n ss\<close>: walking \<open>ss\<close> from \<open>n\<close> meets an entry that is not a directory
  before the path ends (\<^verbatim>\<open>ENOTDIR\<close>).\<close>

fun blocked :: "node \<Rightarrow> string list \<Rightarrow> bool" where
  "blocked n [] = False"
| "blocked (Dir items) (s # ss) =
     (case map_of items s of None \<Rightarrow> False | Some child \<Rightarrow> blocked child ss)"
| "blocked n (s # ss) = True"

text \<open>Replacing the entry named \<open>s\<close> of a directory, in place.\<close>

fun replace_entry :: "string \<Rightarrow> node \<Rightarrow> (string \<times> node) list \<Rightarrow> (string \<times> node) list" where
  "replace_entry s child [] = []"
| "replace_entry s child ((k, c) # items) =
     (if k = s then (s, child) # items else (k, c) # replace_entry s child items)"

fun remove_at :: "string list \<Rightarrow> node \<Rightarrow> node" where
  "remove_at [] n = n"
| "remove_at [s] (Dir items) = Dir (filter (\<lambda>item. fst item \<noteq> s) items)"
| "remove_at (s # t # ss) (Dir items) =
     (case map_of items s of
        None \<Rightarrow> Dir items
      | Some child \<Rightarrow> Dir (replace_entry s (remove_at (t # ss) child) items))"
| "remove_at (s # ss) n = n"

text \<open>
  \<^verbatim>\<open>fs.rmSync(p, { recursive: true, force: true })\<close>. A missing path is not an error. The
  operating system can refuse to remove what is there (\<^verbatim>\<open>EACCES\<close>, \<^verbatim>\<open>EPERM\<close>, \<^verbatim>\<open>EBUSY\<close>):
  the refusal is a parameter, \<open>None\<close> when the system permits the removal, and otherwise the
  error thrown together with the paths below \<open>p\<close> that the recursive removal had removed
  before it was refused. The result is the error thrown, if any, and the disk left behind.
\<close>

type_synonym rm_refusal = "(js_error \<times> string list list) option"

definition rmSync :: "rm_refusal \<Rightarrow> string \<Rightarrow> node \<Rightarrow> js_error option \<times> node" where
  "rmSync refusal p fs =
     (if blocked fs (resolve p) then (Some (ENOTDIR p), fs)
      else if lookup fs (resolve p) = None then (None, fs)
      else (case refusal of
              None \<Rightarrow> (None, remove_at (resolve p) fs)
            | Some (err, removed) \<Rightarrow>
                (Some err,
                 foldr (\<lambda>q. remove_at (resolve p @ q)) (filter (\<lambda>q. q \<noteq> []) removed) fs)))"

definition existsSync :: "node \<Rightarrow> string \<Rightarrow> bool" where
  "existsSync fs p = (lookup fs (resolve p) \<noteq> None)"

fun mkdir_p :: "string list \<Rightarrow> node \<Rightarrow> node option" where
  "mkdir_p [] (Dir items) = Some (Dir items)"
| "mkdir_p (s # ss) (Dir items) =
     (case map_of items s of
        None \<Rightarrow> map_option (\<lambda>child. Dir (items @ [(s, child)])) (mkdir_p ss (Dir []))
      | Some child \<Rightarrow> map_option (\<lambda>child'. Dir (replace_entry s child' items)) (mkdir_p ss child))"
| "mkdir_p ss n = None"

text \<open>\<^verbatim>\<open>fs.mkdirSync(p, { recursive: true })\<close>.\<close>

definition mkdirSync :: "string \<Rightarrow> node \<Rightarrow> js_error + node" where
  "mkdirSync p fs = (case mkdir_p (resolve p) fs of None \<Rightarrow> Inl (ENOTDIR p) | Some fs' \<Rightarrow> Inr fs')"

text \<open>Writing a file at a path, creating the missing directories above it; \<open>None\<close> when
  the path runs through a non-directory or ends at something that is not a file.\<close>

fun write_at :: "string list \<Rightarrow> string \<Rightarrow> node \<Rightarrow> node option" where
  "write_at [] content n = None"
| "write_at [s] content (Dir items) =
     (case map_of items s of
        None \<Rightarrow> Some (Dir (items @ [(s, File content)]))
      | Some (File old) \<Rightarrow> Some (Dir (replace_entry s (File content) items))
      | Some other \<Rightarrow> None)"
| "write_at (s # t # ss) content (Dir items) =
     (case map_of items s of
        None \<Rightarrow> map_option (\<lambda>child. Dir (items @ [(s, child)])) (write_at (t # ss) content (Dir []))
      | Some child \<Rightarrow>
          map_option (\<lambda>child'. Dir (replace_entry s child' items)) (write_at (t # ss) content child))"
| "write_at (s # ss) content n = None"

text \<open>
  \<^verbatim>\<open>fs.cpSync(src, dest)\<close> for a source file: the source must be a file, source and
  destination must differ, the destination must not be a directory; the parent
  directories of the destination are created and an existing file is replaced.
\<close>

definition cpSync :: "string \<Rightarrow> string \<Rightarrow> node \<Rightarrow> js_error + node" where
  "cpSync src dest fs =
     (case lookup fs (resolve src) of
        None \<Rightarrow> Inl (ENOENT src)
      | Some (File content) \<Rightarrow>
          if resolve src = resolve dest then Inl (EINVAL dest)
          else (case lookup fs (resolve dest) of
                  Some (Dir items) \<Rightarrow> Inl (EISDIR dest)
                | _ \<Rightarrow> (case write_at (resolve dest) content fs of
                         None \<Rightarrow> Inl (ENOTDIR dest)
                       | Some fs' \<Rightarrow> Inr fs'))
      | Some other \<Rightarrow> Inl (EISDIR src))"

subsection \<open>Walking a directory\<close>

fun getAssetPaths_items :: "string \<Rightarrow> (string \<times> node) list \<Rightarrow> string list" where
  "getAssetPaths_items directory [] = []"
| "getAssetPaths_items directory ((item_name, Dir sub) # items) =
     getAssetPaths_items (path_join [directory, item_name]) sub
     @ getAssetPaths_items directory items"
| "getAssetPaths_items directory ((item_name, File content) # items) =
     (if isAsset item_name then [path_join [directory, item_name]] else [])
     @ getAssetPaths_items directory items"
| "getAssetPaths_items directory ((item_name, Special) # items) =
     getAssetPaths_items directory items"

definition getAssetPathsSync :: "node \<Rightarrow> string \<Rightarrow> js_error + string list" where
  "getAssetPathsSync fs directory =
     (case lookup fs (resolve directory) of
        None \<Rightarrow> Inl (ENOENT directory)
      | Some (Dir items) \<Rightarrow> Inr (getAssetPaths_items directory items)
      | Some other \<Rightarrow> Inl (ENOTDIR directory))"

subsection \<open>Staging\<close>

definition staged_path :: "string \<Rightarrow> string \<Rightarrow> string \<Rightarrow> string" where
  "staged_path tmpDirPath newFileName filePath =
     (let extname = path_extname filePath
      in if extname = ''.map'' then path_join [tmpDirPath, newFileName @ extname]
         else path_join [tmpDirPath, newFileName])"

fun copy_loop :: "string \<Rightarrow> string \<Rightarrow> string list \<Rightarrow> node \<Rightarrow> js_error + node" where
  "copy_loop tmpDirPath newFileName [] fs = Inr fs"
| "copy_loop tmpDirPath newFileName (filePath # rest) fs =
     (case cpSync filePath (staged_path tmpDirPath newFileName filePath) fs of
        Inl e \<Rightarrow> Inl e
      | Inr fs' \<Rightarrow> copy_loop tmpDirPath newFileName rest fs')"

definition copyFilesToTmpDirectory ::
  "string \<Rightarrow> string list \<Rightarrow> string \<Rightarrow> node \<Rightarrow> js_error + node" where
  "copyFilesToTmpDirectory parentFilePathForTmpDir filePaths newFileName fs =
     (let tmpDirPath = path_join [parentFilePathForTmpDir, TMP_DIR]
      in case (if \<not> existsSync fs tmpDirPath then mkdirSync tmpDirPath fs else Inr fs) of
           Inl e \<Rightarrow> Inl e
         | Inr fs' \<Rightarrow> copy_loop tmpDirPath newFileName filePaths fs')"

text \<open>\<^verbatim>\<open>deleteTmpDirectory\<close> catches what \<^verbatim>\<open>rmSync\<close> throws and writes it to the console.\<close>

definition deleteTmpDirectory :: "rm_refusal \<Rightarrow> string \<Rightarrow> node \<Rightarrow> node \<times> message list" where
  "deleteTmpDirectory refusal parentFilePathForTmpDir fs =
     (case rmSync refusal (path_join [parentFilePathForTmpDir, TMP_DIR]) fs of
        (Some err, fs') \<Rightarrow> (fs', [FailedToDeleteTmpDirectory])
      | (None, fs') \<Rightarrow> (fs', []))"


subsection \<open>Correlating update records with groups\<close>

record update_record =
  updateId :: string
  platform :: string
  runtimeVersion :: string

record correlation =
  disk :: node
  warnings :: "message list"
  runtimesByAssetGroup :: "string js_object"

definition findAssetGroup :: "string list js_object \<Rightarrow> string \<Rightarrow> string option" where
  "findAssetGroup groupedAssets pf = find (\<lambda>key. sublist pf key) (js_keys groupedAssets)"

definition newAssetGroupName :: "update_record \<Rightarrow> string \<Rightarrow> string" where
  "newAssetGroupName u assetGroup =
     platform u @ ''-update-id-'' @ updateId u @ ext (path_parse assetGroup)"

text \<open>
  The loop over \<^verbatim>\<open>updates\<close>. \<^verbatim>\<open>!assetGroupName\<close> also holds for an empty key.
\<close>

fun correlate ::
  "string \<Rightarrow> string list js_object \<Rightarrow> update_record list \<Rightarrow> correlation \<Rightarrow>
   js_error + correlation" where
  "correlate outputDir groupedAssets [] st = Inr st"
| "correlate outputDir groupedAssets (u # rest) st =
     (case findAssetGroup groupedAssets (platform u) of
        None \<Rightarrow>
          correlate outputDir groupedAssets rest
            (st\<lparr>warnings := warnings st @ [CouldNotFindCodeAssetsFor (platform u)]\<rparr>)
      | Some assetGroup \<Rightarrow>
          if assetGroup = [] then
            correlate outputDir groupedAssets rest
              (st\<lparr>warnings := warnings st @ [CouldNotFindCodeAssetsFor (platform u)]\<rparr>)
          else
            (case js_get groupedAssets assetGroup of
               Own filePaths \<Rightarrow>
                 (case copyFilesToTmpDirectory outputDir filePaths
                         (newAssetGroupName u assetGroup) (disk st) of
                    Inl e \<Rightarrow> Inl e
                  | Inr fs' \<Rightarrow>
                      correlate outputDir groupedAssets rest
                        (st\<lparr>disk := fs',
                            runtimesByAssetGroup :=
                              js_set (runtimesByAssetGroup st) (newAssetGroupName u assetGroup)
                                (runtimeVersion u)\<rparr>))
             | _ \<Rightarrow> Inl TypeError))"

subsection \<open>The upload loop\<close>

text \<open>
  The text a template literal puts for \<^verbatim>\<open>runtimesByAssetGroup[assetGroupName]\<close>: the
  string itself, \<^verbatim>\<open>undefined\<close>, or the text of the inherited member of \<^verbatim>\<open>Object.prototype\<close>.
\<close>

definition release_text :: "string js_object \<Rightarrow> string \<Rightarrow> string" where
  "release_text runtimes groupName =
     (case js_get runtimes groupName of
        Own runtime \<Rightarrow> runtime
      | Undefined \<Rightarrow> ''undefined''
      | Inherited \<Rightarrow>
          if groupName = ''__proto__'' then ''[object Object]''
          else ''function '' @ (if groupName = ''constructor'' then ''Object'' else groupName)
               @ ''() { [native code] }'')"

fun join_blank :: "string list \<Rightarrow> string" where
  "join_blank [] = []"
| "join_blank [s] = s"
| "join_blank (s # t # ss) = s @ CHR '' '' # join_blank (t # ss)"

text \<open>The string handed to \<^verbatim>\<open>execSync\<close>. Nothing is quoted.\<close>

definition upload_command :: "string \<Rightarrow> bool \<Rightarrow> string list \<Rightarrow> string" where
  "upload_command runtime isHermes assets =
     SENTRY_CLI @ '' sourcemaps upload --release '' @ runtime @ '' ''
     @ (if isHermes then ''--debug-id-reference'' else [])
     @ '' '' @ join_blank assets"

text \<open>
  One call of \<^verbatim>\<open>execSync\<close>: the value of \<^verbatim>\<open>SENTRY_PROJECT\<close> in the environment of the
  child, the values interpolated into the command (\<^verbatim>\<open>runtime\<close>, \<^verbatim>\<open>isHermes\<close>, \<^verbatim>\<open>assets\<close>)
  and the command string itself. The outcome of the external command is a parameter:
  \<open>cli_ok\<close> tells which calls exit with status zero; \<^verbatim>\<open>execSync\<close> throws for the others.
\<close>

record invocation =
  project :: "json option"
  release :: "string js_value"
  debug_id_reference :: bool
  targets :: "string list"
  command :: string

definition isHermes :: "string list \<Rightarrow> bool" where
  "isHermes assets =
     (case find (\<lambda>asset. suffix ''.hbc'' asset) assets of
        None \<Rightarrow> False
      | Some asset \<Rightarrow> asset \<noteq> [])"

definition upload_invocation ::
  "json option \<Rightarrow> string js_object \<Rightarrow> string \<times> string list \<Rightarrow> invocation" where
  "upload_invocation sentryProject runtimes entry =
     \<lparr>project = sentryProject,
      release = js_get runtimes (fst entry),
      debug_id_reference = isHermes (snd entry),
      targets = snd entry,
      command = upload_command (release_text runtimes (fst entry)) (isHermes (snd entry)) (snd entry)\<rparr>"

fun upload_loop ::
  "(invocation \<Rightarrow> bool) \<Rightarrow> json option \<Rightarrow> string js_object \<Rightarrow>
   (string \<times> string list) list \<Rightarrow> invocation list \<Rightarrow> js_error option \<times> invocation list" where
  "upload_loop cli sentryProject runtimes [] made = (None, made)"
| "upload_loop cli sentryProject runtimes (entry # rest) made =
     (let call = upload_invocation sentryProject runtimes entry
      in if cli call then upload_loop cli sentryProject runtimes rest (made @ [call])
         else (Some CommandFailed, made @ [call]))"






subsection \<open>Configuration\<close>

text \<open>
  What the process is started with: the two environment variables, the first command
  line argument, the parsed output of \<^verbatim>\<open>npx expo config --json\<close> (\<open>None\<close> when
  \<^verbatim>\<open>execSync\<close> or \<^verbatim>\<open>JSON.parse\<close> throws), \<^verbatim>\<open>JSON.parse\<close> on the text of a manifest of
  the documented shape (\<open>None\<close> when it throws), the answer of the operating system to
  the removal of the scratch directory, and the exit status of the upload tool.
\<close>

record process_env =
  env_SENTRY_PROJECT :: "string option"
  env_SENTRY_AUTH_TOKEN :: "string option"
  argv2 :: "string option"
  expo_config :: "json option"
  parse_manifest :: "string \<Rightarrow> update_record list option"
  rm_refusal :: rm_refusal
  cli_ok :: "invocation \<Rightarrow> bool"

fun truthy :: "json \<Rightarrow> bool" where
  "truthy JNull = False"
| "truthy (JBool b) = b"
| "truthy (JNumber n) = (n \<noteq> 0)"
| "truthy (JString s) = (s \<noteq> [])"
| "truthy (JArray elems) = True"
| "truthy (JObject members) = True"

definition truthy_string :: "string option \<Rightarrow> bool" where
  "truthy_string v = (case v of None \<Rightarrow> False | Some s \<Rightarrow> s \<noteq> [])"

definition isSentryPlugin :: "json \<Rightarrow> bool" where
  "isSentryPlugin plugin =
     (case plugin of
        JArray elems \<Rightarrow>
          if length elems < 2 then False else hd elems = JString ''@sentry/react-native''
      | _ \<Rightarrow> False)"

text \<open>
  \<^verbatim>\<open>getSentryPluginPropertiesFromExpoConfig\<close>: \<open>None\<close> is the \<^verbatim>\<open>null\<close> it returns. The
  \<^verbatim>\<open>catch\<close> is reached when the command or the parser throws, when the configuration is
  \<^verbatim>\<open>null\<close>, and when \<^verbatim>\<open>plugins\<close> is truthy but has no \<^verbatim>\<open>find\<close> method.
\<close>

definition getSentryPluginPropertiesFromExpoConfig :: "json option \<Rightarrow> json option \<times> message list" where
  "getSentryPluginPropertiesFromExpoConfig stdOut =
     (case stdOut of
        None \<Rightarrow> (None, [ErrorFetchingExpoConfig])
      | Some JNull \<Rightarrow> (None, [ErrorFetchingExpoConfig])
      | Some (JObject members) \<Rightarrow>
          (case map_of members ''plugins'' of
             None \<Rightarrow> (None, [])
           | Some plugins \<Rightarrow>
               if \<not> truthy plugins then (None, [])
               else (case plugins of
                       JArray elems \<Rightarrow>
                         (case find isSentryPlugin elems of
                            Some (JArray (pluginName # pluginConfig # others)) \<Rightarrow> (Some pluginConfig, [])
                          | _ \<Rightarrow> (None, []))
                     | _ \<Rightarrow> (None, [ErrorFetchingExpoConfig])))
      | Some other \<Rightarrow> (None, []))"

definition project_of :: "json \<Rightarrow> json option" where
  "project_of pluginConfig =
     (case pluginConfig of JObject members \<Rightarrow> map_of members ''project'' | _ \<Rightarrow> None)"

text \<open>
  The checks at the top of the script, up to the last \<^verbatim>\<open>process.exit(1)\<close>. \<open>Inl\<close> is an
  exit with status 1 and the console lines written before it; \<open>Inr\<close> carries
  \<^verbatim>\<open>sentryProject\<close>, \<^verbatim>\<open>outputDir\<close> and the console lines.
\<close>

definition configure :: "process_env \<Rightarrow> message list + (json option \<times> string \<times> message list)" where
  "configure env =
     (case (if \<not> truthy_string (env_SENTRY_PROJECT env) then
              (case getSentryPluginPropertiesFromExpoConfig (expo_config env) of
                 (pluginConfig, msgs) \<Rightarrow>
                   if \<not> (case pluginConfig of None \<Rightarrow> False | Some c \<Rightarrow> truthy c) then
                     Inl (FetchingProjectFromExpoConfig # msgs @ [CouldNotFetchPluginProperties])
                   else
                     Inr (project_of (the pluginConfig),
                          FetchingProjectFromExpoConfig # msgs
                          @ [ProjectResolvedFromExpoConfig (project_of (the pluginConfig))]))
            else Inr (map_option JString (env_SENTRY_PROJECT env), [])) of
        Inl msgs \<Rightarrow> Inl msgs
      | Inr (sentryProject, msgs) \<Rightarrow>
          if \<not> truthy_string (env_SENTRY_AUTH_TOKEN env) then Inl (msgs @ [AuthTokenMustBeSet])
          else if \<not> truthy_string (argv2 env) then
            Inl (msgs @ [ProvideTheDirectory, ExampleInvocation])
          else Inr (sentryProject, the (argv2 env), msgs))"

subsection \<open>The whole run\<close>

datatype run_result =
    Exit nat node "message list"
  | Crash js_error "invocation list"
  | Done node "message list" "invocation list"

definition readAndPrintJSONFile ::
  "process_env \<Rightarrow> node \<Rightarrow> string \<Rightarrow> (js_error + update_record list) \<times> message list" where
  "readAndPrintJSONFile env fs filePath =
     (if \<not> existsSync fs filePath then (Inl (FileDoesNotExist filePath), [])
      else (case lookup fs (resolve filePath) of
              Some (File content) \<Rightarrow>
                (case parse_manifest env content of
                   None \<Rightarrow> (Inl SyntaxError, [ErrorReadingOrParsingJSON])
                 | Some updates \<Rightarrow> (Inr updates, []))
            | _ \<Rightarrow> (Inl (EISDIR filePath), [ErrorReadingOrParsingJSON])))"

definition upload_all ::
  "process_env \<Rightarrow> json option \<Rightarrow> string js_object \<Rightarrow> string list js_object \<Rightarrow>
   js_error option \<times> invocation list" where
  "upload_all env sentryProject runtimes groupedTmpAssets =
     upload_loop (cli_ok env) sentryProject runtimes (js_entries groupedTmpAssets) []"

definition pipeline :: "process_env \<Rightarrow> json option \<Rightarrow> string \<Rightarrow> message list \<Rightarrow> node \<Rightarrow> run_result" where
  "pipeline env sentryProject outputDir msgs fs =
     (case deleteTmpDirectory (rm_refusal env) outputDir fs of
        (fs1, msgs1) \<Rightarrow>
     (case getAssetPathsSync fs1 outputDir of
        Inl e \<Rightarrow> Crash e []
      | Inr files \<Rightarrow>
     (case groupAssets files of
        Inl e \<Rightarrow> Crash e []
      | Inr groupedAssets \<Rightarrow>
     (case readAndPrintJSONFile env fs1 (path_join [outputDir, ''eas-update-metadata.json'']) of
        (Inl e, msgs2) \<Rightarrow> Crash e []
      | (Inr updates, msgs2) \<Rightarrow>
     (case correlate outputDir groupedAssets updates
             \<lparr>disk = fs1, warnings = [], runtimesByAssetGroup = []\<rparr> of
        Inl e \<Rightarrow> Crash e []
      | Inr c \<Rightarrow>
     (case getAssetPathsSync (disk c) (path_join [outputDir, TMP_DIR]) of
        Inl e \<Rightarrow> Crash e []
      | Inr tmpFiles \<Rightarrow>
     (case groupAssets tmpFiles of
        Inl e \<Rightarrow> Crash e []
      | Inr groupedTmpAssets \<Rightarrow>
     (case upload_all env sentryProject (runtimesByAssetGroup c) groupedTmpAssets of
        (Some e, made) \<Rightarrow> Crash e made
      | (None, made) \<Rightarrow>
          Done (disk c) (msgs @ msgs1 @ msgs2 @ warnings c @ [UploadedSuccessfully]) made))))))))"

definition main :: "process_env \<Rightarrow> node \<Rightarrow> run_result" where
  "main env fs =
     (case configure env of
        Inl msgs \<Rightarrow> Exit 1 fs msgs
      | Inr (sentryProject, outputDir, msgs) \<Rightarrow> pipeline env sentryProject outputDir msgs fs)"

subsection \<open>Concrete runs\<close>

text \<open>
  A build output with a bundle and its sourcemap, a \<^verbatim>\<open>.bundle\<close> file (not an asset for
  \<^const>\<open>isAsset\<close>) and its sourcemap, and a manifest with one Android update.
\<close>

definition scenario_fs :: node where
  "scenario_fs =
     Dir [(''dist'',
           Dir [(''app.js'', File ''bundle''),
                (''app.js.map'', File ''map of app.js''),
                (''index.android.bundle'', File ''android bundle''),
                (''index.android.bundle.map'', File ''map of android bundle''),
                (''eas-update-metadata.json'', File ''manifest'')])]"

definition scenario_env :: process_env where
  "scenario_env =
     \<lparr>env_SENTRY_PROJECT = Some ''my-project'',
      env_SENTRY_AUTH_TOKEN = Some ''token'',
      argv2 = Some ''dist'',
      expo_config = None,
      parse_manifest =
        (\<lambda>text. Some [\<lparr>updateId = ''u1'', platform = ''android'', runtimeVersion = ''1.2.0''\<rparr>]),
      rm_refusal = None,
      cli_ok = (\<lambda>call. True)\<rparr>"

text \<open>
  No \<^verbatim>\<open>SENTRY_PROJECT\<close> in the environment, and an Expo configuration whose
  \<^verbatim>\<open>@sentry/react-native\<close> plugin entry has properties but no \<^verbatim>\<open>project\<close>; the output
  directory still holds the \<^verbatim>\<open>.tmp\<close> of an earlier run.
\<close>

definition unresolved_project_env :: process_env where
  "unresolved_project_env =
     \<lparr>env_SENTRY_PROJECT = None,
      env_SENTRY_AUTH_TOKEN = Some ''token'',
      argv2 = Some ''dist'',
      expo_config =
        Some (JObject [(''name'', JString ''app''),
                       (''plugins'',
                        JArray [JString ''expo-router'',
                                JArray [JString ''@sentry/react-native'',
                                        JObject [(''organization'', JString ''acme'')]]])]),
      parse_manifest =
        (\<lambda>text. Some [\<lparr>updateId = ''u1'', platform = ''android'', runtimeVersion = ''1.2.0''\<rparr>]),
      rm_refusal = None,
      cli_ok = (\<lambda>call. True)\<rparr>"

text \<open>The environment of the scenario, with an operating system that refuses to remove the
  scratch directory.\<close>

definition refused_env :: process_env where
  "refused_env =
     \<lparr>env_SENTRY_PROJECT = Some ''my-project'',
      env_SENTRY_AUTH_TOKEN = Some ''token'',
      argv2 = Some ''dist'',
      expo_config = None,
      parse_manifest =
        (\<lambda>text. Some [\<lparr>updateId = ''u1'', platform = ''android'', runtimeVersion = ''1.2.0''\<rparr>]),
      rm_refusal = Some (EACCES ''dist/.tmp'', []),
      cli_ok = (\<lambda>call. True)\<rparr>"

definition stale_fs :: node where
  "stale_fs =
     Dir [(''dist'',
           Dir [(''.tmp'', Dir [(''ios-update-id-old.js'', File ''stale'')]),
                (''index.android.js'', File ''bundle''),
                (''index.android.js.map'', File ''map''),
                (''eas-update-metadata.json'', File ''manifest'')])]"

text \<open>A directory with a sourcemap \<^verbatim>\<open>a.map\<close> and a subdirectory \<^verbatim>\<open>a\<close> that holds a file
  named \<^verbatim>\<open>..map\<close>.\<close>

definition dotted_fs :: node where
  "dotted_fs = Dir [(''a.map'', File ''first map''), (''a'', Dir [(''..map'', File ''second map'')])]"











section \<open>Properties\<close>

subsection \<open>Paths\<close>

lemma split_slash_nonempty: "split_slash s \<noteq> []"
  by (induction s) (auto split: list.splits)

lemma split_slash_noslash: "seg \<in> set (split_slash s) \<Longrightarrow> CHR ''/'' \<notin> set seg"
  by (induction s arbitrary: seg) (auto split: list.splits if_splits)

lemma split_slash_single: "CHR ''/'' \<notin> set n \<Longrightarrow> split_slash n = [n]"
  by (induction n) auto

lemma split_slash_append:
  "CHR ''/'' \<notin> set a \<Longrightarrow> split_slash (a @ CHR ''/'' # b) = a # split_slash b"
  by (induction a) (auto split: list.splits)

lemma split_join:
  "ys \<noteq> [] \<Longrightarrow> \<forall>s \<in> set ys. CHR ''/'' \<notin> set s \<Longrightarrow> split_slash (join_slash ys) = ys"
proof (induction ys rule: join_slash.induct)
  case 1
  then show ?case by simp
next
  case (2 s)
  then show ?case by (simp add: split_slash_single)
next
  case (3 s t ss)
  then show ?case by (simp add: split_slash_append)
qed

lemma join_slash_snoc:
  "join_slash (ys @ [n]) = (if ys = [] then n else join_slash ys @ CHR ''/'' # n)"
  by (induction ys rule: join_slash.induct) auto

lemma join_slash_eq_Nil:
  "\<forall>s \<in> set ys. s \<noteq> [] \<Longrightarrow> join_slash ys = [] \<longleftrightarrow> ys = []"
  by (induction ys rule: join_slash.induct) auto

lemma norm_step_ok:
  assumes "\<forall>s \<in> set st. s \<noteq> [] \<and> s \<noteq> ''.'' \<and> CHR ''/'' \<notin> set s" and "CHR ''/'' \<notin> set seg"
  shows "\<forall>s \<in> set (norm_step allow st seg). s \<noteq> [] \<and> s \<noteq> ''.'' \<and> CHR ''/'' \<notin> set s"
proof (cases "seg = [] \<or> seg = ''.''")
  case True
  then show ?thesis using assms(1) by (simp add: norm_step_def)
next
  case False
  show ?thesis
  proof (cases "seg = ''..''")
    case True
    have "set (norm_step allow st seg) \<subseteq> insert ''..'' (set st)"
      unfolding norm_step_def using True by (cases st) auto
    then show ?thesis using assms(1) by auto
  next
    case ndd: False
    with False have "norm_step allow st seg = seg # st" by (simp add: norm_step_def)
    then show ?thesis using assms False by auto
  qed
qed

lemma foldl_norm_step_ok:
  "\<forall>s \<in> set st. s \<noteq> [] \<and> s \<noteq> ''.'' \<and> CHR ''/'' \<notin> set s \<Longrightarrow>
   \<forall>s \<in> set xs. CHR ''/'' \<notin> set s \<Longrightarrow>
   \<forall>s \<in> set (foldl (norm_step allow) st xs). s \<noteq> [] \<and> s \<noteq> ''.'' \<and> CHR ''/'' \<notin> set s"
proof (induction xs arbitrary: st)
  case Nil
  then show ?case by simp
next
  case (Cons x xs)
  have "\<forall>s \<in> set (norm_step allow st x). s \<noteq> [] \<and> s \<noteq> ''.'' \<and> CHR ''/'' \<notin> set s"
    using Cons.prems by (intro norm_step_ok) simp_all
  from Cons.IH[OF this] Cons.prems(2) show ?case by simp
qed

lemma norm_segs_ok:
  assumes "\<forall>s \<in> set xs. CHR ''/'' \<notin> set s" and "s \<in> set (norm_segs allow xs)"
  shows "s \<noteq> [] \<and> s \<noteq> ''.'' \<and> CHR ''/'' \<notin> set s"
proof -
  have "\<forall>s \<in> set (foldl (norm_step allow) [] xs). s \<noteq> [] \<and> s \<noteq> ''.'' \<and> CHR ''/'' \<notin> set s"
    by (rule foldl_norm_step_ok) (simp, rule assms(1))
  moreover from assms(2) have "s \<in> set (foldl (norm_step allow) [] xs)"
    by (simp add: norm_segs_def)
  ultimately show ?thesis by blast
qed

lemma norm_segs_split_ok:
  "s \<in> set (norm_segs allow (split_slash p)) \<Longrightarrow> s \<noteq> [] \<and> s \<noteq> ''.'' \<and> CHR ''/'' \<notin> set s"
  using norm_segs_ok[of "split_slash p"] split_slash_noslash by blast

lemma norm_segs_snoc:
  "valid_name n \<Longrightarrow> norm_segs allow (xs @ [n]) = norm_segs allow xs @ [n]"
  by (simp add: norm_segs_def norm_step_def valid_name_def)

lemma split_slash_app:
  "split_slash (d @ CHR ''/'' # b) = split_slash d @ split_slash b"
proof (induction d)
  case Nil
  show ?case by simp
next
  case (Cons c cs)
  show ?case
    using Cons.IH split_slash_nonempty[of cs] by (cases "split_slash cs") simp_all
qed

lemma path_join2:
  assumes "d \<noteq> []" and "valid_name n"
  shows "path_join [d, n] =
         render_path (hd d = CHR ''/'') (norm_segs (hd d \<noteq> CHR ''/'') (split_slash d) @ [n])"
proof -
  from assms(2) have n: "n \<noteq> []" "CHR ''/'' \<notin> set n" by (simp_all add: valid_name_def)
  let ?p = "d @ CHR ''/'' # n"
  have j: "path_join [d, n] = path_normalize ?p"
    using assms(1) n(1) by (simp add: path_join_def)
  have pne: "?p \<noteq> []" by simp
  have hd: "hd ?p = hd d" using assms(1) by simp
  have "last ?p = last n" using n(1) by simp
  moreover have "last n \<in> set n" using n(1) by simp
  ultimately have last: "last ?p \<noteq> CHR ''/''" using n(2) by metis
  have sp: "split_slash ?p = split_slash d @ [n]"
    using n(2) by (simp add: split_slash_app split_slash_single)
  let ?ys = "norm_segs (hd d \<noteq> CHR ''/'') (split_slash d)"
  have ns: "norm_segs (\<not> hd d = CHR ''/'') (split_slash ?p) = ?ys @ [n]"
    using norm_segs_snoc[OF assms(2)] sp by simp
  have ne: "join_slash (?ys @ [n]) \<noteq> []"
    using n(1) by (simp add: join_slash_snoc)
  have "path_normalize ?p =
        (if hd d = CHR ''/'' then ''/'' else []) @ join_slash (?ys @ [n])"
    unfolding path_normalize_def Let_def hd ns using pne last ne by simp
  then show ?thesis unfolding j render_path_def .
qed

lemma last_segment_plain: "CHR ''/'' \<notin> set n \<Longrightarrow> last_segment n = n"
proof -
  assume "CHR ''/'' \<notin> set n"
  then have "\<forall>c \<in> set (rev n). c \<noteq> CHR ''/''" by auto
  then have t: "takeWhile (\<lambda>c. c \<noteq> CHR ''/'') (rev n) = rev n"
    by (simp only: takeWhile_eq_all_conv)
  show ?thesis unfolding last_segment_def t by simp
qed

lemma last_segment_slash: "CHR ''/'' \<notin> set n \<Longrightarrow> last_segment (a @ CHR ''/'' # n) = n"
proof -
  assume n: "CHR ''/'' \<notin> set n"
  have "rev (a @ CHR ''/'' # n) = rev n @ CHR ''/'' # rev a" by simp
  moreover have "takeWhile (\<lambda>c. c \<noteq> CHR ''/'') (rev n @ CHR ''/'' # rev a) = rev n"
    using n by (subst takeWhile_append2) auto
  ultimately show ?thesis by (simp add: last_segment_def)
qed

lemma before_last_segment_slash:
  "CHR ''/'' \<notin> set n \<Longrightarrow> before_last_segment (a @ CHR ''/'' # n) = a"
proof -
  assume n: "CHR ''/'' \<notin> set n"
  have "rev (a @ CHR ''/'' # n) = rev n @ CHR ''/'' # rev a" by simp
  moreover have "dropWhile (\<lambda>c. c \<noteq> CHR ''/'') (rev n @ CHR ''/'' # rev a) = CHR ''/'' # rev a"
    using n by (subst dropWhile_append2) auto
  ultimately show ?thesis by (simp add: before_last_segment_def)
qed

lemma strip_slashes_id: "s \<noteq> [] \<Longrightarrow> last s \<noteq> CHR ''/'' \<Longrightarrow> strip_slashes s = s"
proof -
  assume "s \<noteq> []" "last s \<noteq> CHR ''/''"
  then obtain t c where s: "s = t @ [c]" "c \<noteq> CHR ''/''"
    by (metis append_butlast_last_id)
  then show ?thesis by (simp add: strip_slashes_def)
qed

lemma join_slash_hd:
  assumes "ys \<noteq> []" and "\<forall>s \<in> set ys. s \<noteq> [] \<and> CHR ''/'' \<notin> set s"
  shows "join_slash ys \<noteq> [] \<and> hd (join_slash ys) \<noteq> CHR ''/''"
proof -
  from assms(1) obtain s rest where ys: "ys = s # rest" by (cases ys) auto
  with assms(2) have s: "s \<noteq> []" "CHR ''/'' \<notin> set s" by auto
  then have "hd s \<noteq> CHR ''/''" by (metis hd_in_set)
  moreover have "join_slash ys = s \<or> (\<exists>t. join_slash ys = s @ CHR ''/'' # t)"
    unfolding ys by (cases rest) auto
  ultimately show ?thesis using s(1) by auto
qed

lemma path_parse_render:
  assumes ys: "\<forall>s \<in> set ys. s \<noteq> [] \<and> CHR ''/'' \<notin> set s"
      and n: "n \<noteq> []" "CHR ''/'' \<notin> set n"
  shows "path_parse (render_path a (ys @ [n])) =
         \<lparr>root = (if a then ''/'' else []),
          dir = (if ys = [] then (if a then ''/'' else []) else render_path a ys),
          base = n, ext = ext_of_base n,
          name = take (length n - length (ext_of_base n)) n\<rparr>"
proof -
  let ?body = "join_slash (ys @ [n])"
  let ?p = "render_path a (ys @ [n])"
  have all: "\<forall>s \<in> set (ys @ [n]). s \<noteq> [] \<and> CHR ''/'' \<notin> set s"
    using ys n by auto
  have b: "?body \<noteq> []" "hd ?body \<noteq> CHR ''/''"
    using join_slash_hd[OF _ all] by simp_all
  have p: "?p = (if a then CHR ''/'' # ?body else ?body)" by (simp add: render_path_def)
  have pne: "?p \<noteq> []" using b(1) p by simp
  have hd: "(hd ?p = CHR ''/'') = a" using b by (cases a) (simp_all add: render_path_def)
  have tl: "(if a then tl ?p else ?p) = ?body" by (cases a) (simp_all add: render_path_def)
  have lastn: "last n \<noteq> CHR ''/''" using n by (metis last_in_set)
  have lastb: "last ?body \<noteq> CHR ''/''"
    using lastn n(1) by (simp add: join_slash_snoc)
  have strip: "strip_slashes ?body = ?body" using b(1) lastb by (rule strip_slashes_id)
  have seg: "last_segment ?body = n"
    using n(2) by (simp add: join_slash_snoc last_segment_plain last_segment_slash)
  have slash: "(CHR ''/'' \<in> set ?body) = (ys \<noteq> [])"
    using n(2) by (simp add: join_slash_snoc)
  have before: "ys \<noteq> [] \<Longrightarrow> before_last_segment ?body = join_slash ys"
    using n(2) by (simp add: join_slash_snoc before_last_segment_slash)
  show ?thesis
    unfolding path_parse_def Let_def hd tl strip seg slash
    using pne before by (simp add: render_path_def)
qed

lemma path_format_parse_render:
  assumes ys: "\<forall>s \<in> set ys. s \<noteq> [] \<and> CHR ''/'' \<notin> set s"
      and n: "n \<noteq> []" "CHR ''/'' \<notin> set n"
  shows "path_format (path_parse (render_path a (ys @ [n]))) = render_path a (ys @ [n])"
proof (cases "ys = []")
  case True
  then show ?thesis
    unfolding path_parse_render[OF ys n] using n(1)
    by (simp add: path_format_def render_path_def)
next
  case False
  have "join_slash ys \<noteq> []" using join_slash_hd[OF False ys] by simp
  then show ?thesis
    unfolding path_parse_render[OF ys n] using n(1) False
    by (simp add: path_format_def render_path_def join_slash_snoc)
qed

lemma norm_step_kept:
  "s \<noteq> [] \<Longrightarrow> s \<noteq> ''.'' \<Longrightarrow> s \<noteq> ''..'' \<Longrightarrow> norm_step allow st s = s # st"
  by (simp add: norm_step_def)

lemma norm_step_skip: "s = [] \<or> s = ''.'' \<Longrightarrow> norm_step allow st s = st"
  by (auto simp: norm_step_def)

lemma norm_step_dotdot_Nil: "norm_step allow [] ''..'' = (if allow then [''..''] else [])"
  by (simp add: norm_step_def)

lemma norm_step_dotdot_Cons:
  "norm_step allow (t # ts) ''..'' =
     (if t = ''..'' then (if allow then ''..'' # t # ts else t # ts) else ts)"
  by (simp add: norm_step_def)

lemma normal_stack_step:
  assumes st: "st = names @ replicate k ''..''"
      and names: "\<forall>s \<in> set names. s \<noteq> [] \<and> s \<noteq> ''.'' \<and> s \<noteq> ''..''"
      and k: "\<not> allow \<longrightarrow> k = 0"
  shows "\<exists>names' k'. norm_step allow st seg = names' @ replicate k' ''..'' \<and>
           (\<forall>s \<in> set names'. s \<noteq> [] \<and> s \<noteq> ''.'' \<and> s \<noteq> ''..'') \<and> (\<not> allow \<longrightarrow> k' = 0)"
proof -
  consider (skip) "seg = [] \<or> seg = ''.''" | (up) "seg = ''..''"
    | (keep) "seg \<noteq> []" "seg \<noteq> ''.''" "seg \<noteq> ''..''" by blast
  then show ?thesis
  proof cases
    case skip
    then have "norm_step allow st seg = st" by (rule norm_step_skip)
    then show ?thesis using st names k by blast
  next
    case keep
    then have "norm_step allow st seg = (seg # names) @ replicate k ''..''"
      using st by (simp add: norm_step_kept)
    moreover have "\<forall>s \<in> set (seg # names). s \<noteq> [] \<and> s \<noteq> ''.'' \<and> s \<noteq> ''..''"
      using keep names by simp
    ultimately show ?thesis using k by blast
  next
    case up
    show ?thesis
    proof (cases names)
      case (Cons t ts)
      then have "t \<noteq> ''..''" using names by simp
      then have "norm_step allow st seg = ts @ replicate k ''..''"
        unfolding up st Cons by (simp add: norm_step_dotdot_Cons)
      moreover have "\<forall>s \<in> set ts. s \<noteq> [] \<and> s \<noteq> ''.'' \<and> s \<noteq> ''..''"
        using names Cons by simp
      ultimately show ?thesis using k by blast
    next
      case Nil
      show ?thesis
      proof (cases allow)
        case False
        with k Nil st have "st = []" by simp
        then have "norm_step allow st seg = [] @ replicate 0 ''..''"
          using False up by (simp add: norm_step_dotdot_Nil)
        then show ?thesis by (metis empty_iff list.set(1))
      next
        case True
        have "norm_step allow st seg = [] @ replicate (Suc k) ''..''"
          unfolding up st Nil using True
          by (cases k) (simp_all add: norm_step_dotdot_Nil norm_step_dotdot_Cons)
        then show ?thesis using True by (metis empty_iff list.set(1))
      qed
    qed
  qed
qed

lemma normal_stack_foldl:
  assumes "st = names @ replicate k ''..''"
      and "\<forall>s \<in> set names. s \<noteq> [] \<and> s \<noteq> ''.'' \<and> s \<noteq> ''..''"
      and "\<not> allow \<longrightarrow> k = 0"
  shows "\<exists>names' k'. foldl (norm_step allow) st xs = names' @ replicate k' ''..'' \<and>
           (\<forall>s \<in> set names'. s \<noteq> [] \<and> s \<noteq> ''.'' \<and> s \<noteq> ''..'') \<and> (\<not> allow \<longrightarrow> k' = 0)"
  using assms
proof (induction xs arbitrary: st names k)
  case Nil
  then show ?case by auto
next
  case (Cons x xs)
  from normal_stack_step[OF Cons.prems, of x] obtain names' k' where
    "norm_step allow st x = names' @ replicate k' ''..''"
    "\<forall>s \<in> set names'. s \<noteq> [] \<and> s \<noteq> ''.'' \<and> s \<noteq> ''..''" "\<not> allow \<longrightarrow> k' = 0"
    by blast
  from Cons.IH[OF this] show ?case by simp
qed

lemma normal_stack:
  "\<exists>names k. foldl (norm_step allow) [] xs = names @ replicate k ''..'' \<and>
           (\<forall>s \<in> set names. s \<noteq> [] \<and> s \<noteq> ''.'' \<and> s \<noteq> ''..'') \<and> (\<not> allow \<longrightarrow> k = 0)"
  using normal_stack_foldl[of "[]" "[]" 0 allow xs] by simp

lemma foldl_kept:
  "\<forall>s \<in> set zs. s \<noteq> [] \<and> s \<noteq> ''.'' \<and> s \<noteq> ''..'' \<Longrightarrow>
   foldl (norm_step allow) st zs = rev zs @ st"
  by (induction zs arbitrary: st) (simp_all add: norm_step_kept)

lemma foldl_dots:
  "foldl (norm_step True) (replicate j ''..'') (replicate k ''..'') = replicate (k + j) ''..''"
proof (induction k arbitrary: j)
  case 0
  show ?case by simp
next
  case (Suc k)
  have "norm_step True (replicate j ''..'') ''..'' = replicate (Suc j) ''..''"
    by (cases j) (simp_all add: norm_step_dotdot_Nil norm_step_dotdot_Cons)
  then show ?case using Suc[of "Suc j"] by simp
qed

lemma norm_segs_idem: "norm_segs allow (norm_segs allow xs) = norm_segs allow xs"
proof -
  obtain names k where S: "foldl (norm_step allow) [] xs = names @ replicate k ''..''"
    and names: "\<forall>s \<in> set names. s \<noteq> [] \<and> s \<noteq> ''.'' \<and> s \<noteq> ''..''"
    and k: "\<not> allow \<longrightarrow> k = 0"
    using normal_stack by blast
  have dots: "foldl (norm_step allow) [] (replicate k ''..'') = replicate k ''..''"
  proof (cases allow)
    case True
    then show ?thesis using foldl_dots[of 0 k] by simp
  next
    case False
    then show ?thesis using k by simp
  qed
  have rn: "\<forall>s \<in> set (rev names). s \<noteq> [] \<and> s \<noteq> ''.'' \<and> s \<noteq> ''..''"
    using names by simp
  have "foldl (norm_step allow) [] (rev (names @ replicate k ''..'')) =
        foldl (norm_step allow) (replicate k ''..'') (rev names)"
    using dots by simp
  also have "\<dots> = names @ replicate k ''..''"
    using foldl_kept[OF rn] by simp
  finally show ?thesis by (simp add: norm_segs_def S)
qed

lemma norm_segs_absorb:
  "foldl (norm_step False) st (norm_segs True xs) = foldl (norm_step False) st xs"
proof (induction xs rule: rev_induct)
  case Nil
  show ?case by (simp add: norm_segs_def)
next
  case (snoc x xs)
  let ?S = "foldl (norm_step True) [] xs"
  let ?Y = "foldl (norm_step False) st (rev ?S)"
  have IH: "?Y = foldl (norm_step False) st xs"
    using snoc by (simp add: norm_segs_def)
  have goal: "foldl (norm_step False) st (rev (norm_step True ?S x)) = norm_step False ?Y x"
  proof -
    consider (skip) "x = [] \<or> x = ''.''" | (up) "x = ''..''"
      | (keep) "x \<noteq> []" "x \<noteq> ''.''" "x \<noteq> ''..''" by blast
    then show ?thesis
    proof cases
      case skip
      then show ?thesis by (simp add: norm_step_skip)
    next
      case keep
      then show ?thesis by (simp add: norm_step_kept)
    next
      case up
      show ?thesis
      proof (cases ?S)
        case Nil
        then show ?thesis unfolding up by (simp add: norm_step_dotdot_Nil)
      next
        case (Cons t ts)
        show ?thesis
        proof (cases "t = ''..''")
          case True
          then show ?thesis unfolding up Cons by (simp add: norm_step_dotdot_Cons)
        next
          case False
          obtain names k where S: "?S = names @ replicate k ''..''"
            and names: "\<forall>s \<in> set names. s \<noteq> [] \<and> s \<noteq> ''.'' \<and> s \<noteq> ''..''"
            using normal_stack by blast
          have "t \<in> set names"
          proof (cases names)
            case Nil
            with S Cons have "t # ts = replicate k ''..''" by simp
            then have "t = ''..''" by (cases k) simp_all
            with False show ?thesis by simp
          next
            case (Cons u us)
            with S \<open>?S = t # ts\<close> show ?thesis by simp
          qed
          with names have t: "t \<noteq> []" "t \<noteq> ''.''" "t \<noteq> ''..''" by auto
          show ?thesis unfolding up Cons
            using t by (simp add: norm_step_dotdot_Cons norm_step_kept)
        qed
      qed
    qed
  qed
  show ?case using goal IH by (simp add: norm_segs_def)
qed

lemma split_slash_render:
  assumes "zs \<noteq> []" and "\<forall>s \<in> set zs. CHR ''/'' \<notin> set s"
  shows "split_slash (render_path a zs) = (if a then [] # zs else zs)"
  using split_join[OF assms] by (simp add: render_path_def)

lemma norm_segs_Nil_Cons: "norm_segs allow ([] # xs) = norm_segs allow xs"
  by (simp add: norm_segs_def norm_step_def)

lemma resolve_path_join:
  assumes "d \<noteq> []" and "valid_name n"
  shows "resolve (path_join [d, n]) = resolve d @ [n]"
proof -
  let ?a = "hd d = CHR ''/''"
  let ?ys = "norm_segs (hd d \<noteq> CHR ''/'') (split_slash d)"
  from assms(2) have n: "n \<noteq> []" "CHR ''/'' \<notin> set n" by (simp_all add: valid_name_def)
  have ok: "\<forall>s \<in> set (?ys @ [n]). CHR ''/'' \<notin> set s"
    using norm_segs_split_ok[of _ "hd d \<noteq> CHR ''/''" d] n by auto
  have "split_slash (path_join [d, n]) = (if ?a then [] # (?ys @ [n]) else ?ys @ [n])"
    unfolding path_join2[OF assms] by (rule split_slash_render[OF _ ok]) simp
  then have "resolve (path_join [d, n]) = norm_segs False (?ys @ [n])"
    by (simp add: resolve_def norm_segs_Nil_Cons)
  also have "\<dots> = norm_segs False ?ys @ [n]" by (rule norm_segs_snoc[OF assms(2)])
  also have "norm_segs False ?ys = norm_segs False (split_slash d)"
  proof (cases ?a)
    case True
    then show ?thesis by (simp add: norm_segs_idem)
  next
    case False
    then show ?thesis using norm_segs_absorb[of "[]" "split_slash d"] by (simp add: norm_segs_def)
  qed
  finally show ?thesis by (simp add: resolve_def)
qed

lemma ext_of_base_map: "b \<noteq> [] \<Longrightarrow> ext_of_base (b @ ''.map'') = ''.map''"
proof -
  assume b: "b \<noteq> []"
  have dot: "CHR ''.'' \<in> set (b @ ''.map'')" by simp
  have r: "rev (b @ ''.map'') = ''pam'' @ CHR ''.'' # rev b" by simp
  have "takeWhile (\<lambda>c. c \<noteq> CHR ''.'') (''pam'' @ CHR ''.'' # rev b) = ''pam''" by simp
  then have "takeWhile (\<lambda>c. c \<noteq> CHR ''.'') (rev (b @ ''.map'')) = ''pam''"
    by (simp only: r)
  then have len: "length (b @ ''.map'') - length (takeWhile (\<lambda>c. c \<noteq> CHR ''.'') (rev (b @ ''.map''))) - 1
      = length b" by simp
  have nd: "b @ ''.map'' \<noteq> ''..''"
  proof
    assume "b @ ''.map'' = ''..''"
    then have "length (b @ ''.map'') = length ''..''" by (rule arg_cong)
    then show False by simp
  qed
  show ?thesis
    unfolding ext_of_base_def Let_def len using dot b nd by simp
qed

lemma ext_of_base_suffix: "\<exists>b. s = b @ ext_of_base s \<and> (ext_of_base s \<noteq> [] \<longrightarrow> b \<noteq> [])"
proof (cases "ext_of_base s = []")
  case True
  then show ?thesis by simp
next
  case False
  let ?k = "length s - length (takeWhile (\<lambda>c. c \<noteq> CHR ''.'') (rev s)) - 1"
  from False have e: "ext_of_base s = drop ?k s" "?k \<noteq> 0"
    by (auto simp: ext_of_base_def Let_def split: if_splits)
  with False have "?k < length s" by simp
  then have "s \<noteq> []" by auto
  then have "take ?k s \<noteq> []" using e(2) by simp
  moreover have "s = take ?k s @ drop ?k s" by simp
  ultimately show ?thesis using e(1) by metis
qed

lemma ext_map_decompose:
  assumes "ext_of_base s = ''.map''"
  shows "\<exists>b. b \<noteq> [] \<and> s = b @ ''.map'' \<and> take (length s - length (ext_of_base s)) s = b"
proof -
  from ext_of_base_suffix[of s] assms obtain b where "s = b @ ''.map''" "b \<noteq> []" by auto
  then show ?thesis using assms by simp
qed

lemma isAsset_valid_name:
  assumes "isAsset n" and "CHR ''/'' \<notin> set n"
  shows "valid_name n"
proof -
  from assms(1) obtain x e where n: "n = x @ e" and e: "e = ''.map'' \<or> e = ''.js'' \<or> e = ''.hbc''"
    by (auto simp: isAsset_def suffix_def)
  then have "length n \<ge> 3" by auto
  then have "n \<noteq> []" "n \<noteq> ''.''" "n \<noteq> ''..''" by auto
  then show ?thesis using assms(2) by (simp add: valid_name_def)
qed

lemma render_path_hd:
  assumes "zs \<noteq> []" and "\<forall>s \<in> set zs. s \<noteq> [] \<and> CHR ''/'' \<notin> set s"
  shows "render_path a zs \<noteq> []" and "(hd (render_path a zs) = CHR ''/'') = a"
  using join_slash_hd[OF assms] by (cases a; simp add: render_path_def)+

lemma render_path_last:
  assumes "n \<noteq> []" and "CHR ''/'' \<notin> set n"
  shows "last (render_path a (ys @ [n])) \<noteq> CHR ''/''"
proof -
  have "last n \<noteq> CHR ''/''" using assms by (metis last_in_set)
  then show ?thesis using assms(1) by (simp add: render_path_def join_slash_snoc)
qed

lemma render_path_last_segment:
  assumes "CHR ''/'' \<notin> set n"
  shows "last_segment (render_path a (ys @ [n])) = n"
proof (cases "ys = [] \<and> \<not> a")
  case True
  then show ?thesis using assms by (simp add: render_path_def last_segment_plain)
next
  case False
  then have "\<exists>pre. render_path a (ys @ [n]) = pre @ CHR ''/'' # n"
    by (cases "ys = []") (auto simp: render_path_def join_slash_snoc)
  then show ?thesis using assms last_segment_slash by auto
qed

lemma path_normalize_render:
  assumes zs: "zs \<noteq> []" "\<forall>s \<in> set zs. s \<noteq> [] \<and> CHR ''/'' \<notin> set s"
      and last: "last (render_path a zs) \<noteq> CHR ''/''"
      and fx: "norm_segs (\<not> a) zs = zs"
  shows "path_normalize (render_path a zs) = render_path a zs"
proof -
  let ?p = "render_path a zs"
  have sl: "\<forall>s \<in> set zs. CHR ''/'' \<notin> set s" using zs(2) by blast
  have sp: "norm_segs (\<not> a) (split_slash ?p) = zs"
    unfolding split_slash_render[OF zs(1) sl] using fx by (cases a) (simp_all add: norm_segs_Nil_Cons)
  have ne: "join_slash zs \<noteq> []" using join_slash_hd[OF zs] by simp
  show ?thesis
    unfolding path_normalize_def Let_def render_path_hd(2)[OF zs] sp
    using render_path_hd(1)[OF zs, of a] last ne by (simp add: render_path_def)
qed

lemma path_join_artifact:
  assumes "d \<noteq> []" and "CHR ''/'' \<notin> set n" and "isAsset n"
  shows "artifact_path (path_join [d, n])"
proof -
  have v: "valid_name n" using assms(2,3) by (rule isAsset_valid_name[rotated])
  then have n: "n \<noteq> []" by (simp add: valid_name_def)
  let ?a = "hd d = CHR ''/''"
  let ?ys = "norm_segs (\<not> ?a) (split_slash d)"
  have j: "path_join [d, n] = render_path ?a (?ys @ [n])" using path_join2[OF assms(1) v] by simp
  have ok: "\<forall>s \<in> set (?ys @ [n]). s \<noteq> [] \<and> CHR ''/'' \<notin> set s"
    using norm_segs_split_ok[of _ "\<not> ?a" d] n assms(2) by auto
  have fx: "norm_segs (\<not> ?a) (?ys @ [n]) = ?ys @ [n]"
    unfolding norm_segs_snoc[OF v] by (simp only: norm_segs_idem)
  have "path_normalize (render_path ?a (?ys @ [n])) = render_path ?a (?ys @ [n])"
    by (rule path_normalize_render[OF _ ok render_path_last[OF n assms(2)] fx]) simp
  moreover have "last_segment (render_path ?a (?ys @ [n])) = n"
    by (rule render_path_last_segment[OF assms(2)])
  ultimately show ?thesis unfolding artifact_path_def j using assms(3) by simp
qed

lemma last_segment_trailing: "p \<noteq> [] \<Longrightarrow> last p = CHR ''/'' \<Longrightarrow> last_segment p = []"
proof -
  assume "p \<noteq> []" "last p = CHR ''/''"
  then obtain t where "p = t @ ''/''" by (metis append_butlast_last_id)
  then show ?thesis by (simp add: last_segment_def)
qed

lemma isAsset_nonempty: "isAsset n \<Longrightarrow> n \<noteq> [] \<and> n \<noteq> ''.''"
  by (auto simp: isAsset_def suffix_def)

lemma artifact_path_decompose:
  assumes "artifact_path p"
  obtains a ys n where "p = render_path a (ys @ [n])"
    and "\<forall>s \<in> set ys. s \<noteq> [] \<and> CHR ''/'' \<notin> set s"
    and "norm_segs (\<not> a) ys = ys" and "valid_name n" and "isAsset n"
proof -
  from assms have fixp: "path_normalize p = p" and asset: "isAsset (last_segment p)"
    by (simp_all add: artifact_path_def)
  have pne: "p \<noteq> []"
  proof
    assume "p = []"
    with fixp show False by (simp add: path_normalize_def)
  qed
  let ?a = "hd p = CHR ''/''"
  let ?zs = "norm_segs (\<not> ?a) (split_slash p)"
  have nt: "last p \<noteq> CHR ''/''"
    using last_segment_trailing[OF pne] asset isAsset_nonempty by fastforce
  have zne: "?zs \<noteq> []"
  proof
    assume z: "?zs = []"
    then have "path_normalize p = (if ?a then ''/'' else ''.'')"
      using pne nt by (simp add: path_normalize_def Let_def)
    with fixp have "p = ''/'' \<or> p = ''.''" by (metis)
    then show False
    proof
      assume "p = ''/''" with nt show False by simp
    next
      assume "p = ''.''"
      then have "last_segment p = ''.''" by (simp add: last_segment_def)
      with asset isAsset_nonempty show False by fastforce
    qed
  qed
  have ok: "\<forall>s \<in> set ?zs. s \<noteq> [] \<and> CHR ''/'' \<notin> set s"
    using norm_segs_split_ok[of _ "\<not> ?a" p] by blast
  have ne: "join_slash ?zs \<noteq> []" using join_slash_hd[OF zne ok] by simp
  have p: "p = render_path ?a ?zs"
  proof -
    have "path_normalize p = (if ?a then ''/'' else []) @ join_slash ?zs"
      using pne nt ne by (simp add: path_normalize_def Let_def)
    with fixp show ?thesis by (simp add: render_path_def)
  qed
  obtain ys n where zs: "?zs = ys @ [n]" using zne by (metis rev_exhaust)
  have n: "n \<noteq> []" "CHR ''/'' \<notin> set n" using ok zs by auto
  have "last_segment p = n"
    using render_path_last_segment[OF n(2), of ?a ys] p zs by simp
  with asset have an: "isAsset n" by simp
  then have vn: "valid_name n" using n(2) by (rule isAsset_valid_name)
  have sl: "\<forall>s \<in> set ?zs. CHR ''/'' \<notin> set s" using ok by blast
  have "norm_segs (\<not> ?a) ?zs = ?zs"
    by (rule norm_segs_idem)
  then have "norm_segs (\<not> ?a) ys @ [n] = ys @ [n]"
    using norm_segs_snoc[OF vn, of "\<not> ?a" ys] zs by simp
  then have fx: "norm_segs (\<not> ?a) ys = ys" by simp
  have oky: "\<forall>s \<in> set ys. s \<noteq> [] \<and> CHR ''/'' \<notin> set s" using ok zs by auto
  show ?thesis using that[of ?a ys n] p zs oky fx vn an by simp
qed

lemma render_path_snoc_append:
  "render_path a (ys @ [x @ y]) = render_path a (ys @ [x]) @ y"
  by (simp add: render_path_def join_slash_snoc)

lemma path_join_render:
  assumes ys: "\<forall>s \<in> set ys. s \<noteq> [] \<and> CHR ''/'' \<notin> set s"
      and fx: "norm_segs (\<not> a) ys = ys"
      and b: "valid_name b"
  shows "path_join [if ys = [] then (if a then ''/'' else []) else render_path a ys, b] =
         render_path a (ys @ [b])"
proof -
  from b have bn: "b \<noteq> []" "CHR ''/'' \<notin> set b" by (simp_all add: valid_name_def)
  let ?d = "if ys = [] then (if a then ''/'' else []) else render_path a ys"
  show ?thesis
  proof (cases "?d = []")
    case True
    then have e: "ys = []" "\<not> a"
      using render_path_hd(1)[OF _ ys, of a] by (auto split: if_splits)
    have "path_join [[], b] = path_normalize (render_path False ([] @ [b]))"
      using bn(1) by (simp add: path_join_def render_path_def)
    also have "\<dots> = render_path False ([] @ [b])"
    proof (rule path_normalize_render)
      show "[] @ [b] \<noteq> []" by simp
      show "\<forall>s \<in> set ([] @ [b]). s \<noteq> [] \<and> CHR ''/'' \<notin> set s" using bn by simp
      show "last (render_path False ([] @ [b])) \<noteq> CHR ''/''" by (rule render_path_last[OF bn])
      show "norm_segs (\<not> False) ([] @ [b]) = [] @ [b]"
        using norm_segs_snoc[OF b, of True "[]"] by (simp add: norm_segs_def)
    qed
    finally show ?thesis using e by simp
  next
    case False
    have hd: "(hd ?d = CHR ''/'') = a"
    proof (cases "ys = []")
      case True
      with False show ?thesis by (cases a) simp_all
    next
      case ne: False
      then show ?thesis using render_path_hd(2)[OF ne ys, of a] by simp
    qed
    have seg: "norm_segs (\<not> a) (split_slash ?d) = ys"
    proof (cases "ys = []")
      case True
      with False have "a" by (cases a) simp_all
      then show ?thesis using True by (simp add: norm_segs_def norm_step_def)
    next
      case ne: False
      have sl: "\<forall>s \<in> set ys. CHR ''/'' \<notin> set s" using ys by blast
      show ?thesis
        using split_slash_render[OF ne sl, of a] ne fx
        by (cases a) (simp_all add: norm_segs_Nil_Cons)
    qed
    show ?thesis
      using path_join2[OF False b] hd seg by simp
  qed
qed

lemma artifact_path_ext:
  assumes "artifact_path p"
  shows "ext (path_parse p) = ext_of_base (last_segment p)"
    and "path_extname p = ext_of_base (last_segment p)"
proof -
  from assms obtain a ys n where d: "p = render_path a (ys @ [n])"
    "\<forall>s \<in> set ys. s \<noteq> [] \<and> CHR ''/'' \<notin> set s" "valid_name n"
    by (rule artifact_path_decompose)
  then have n: "n \<noteq> []" "CHR ''/'' \<notin> set n" by (simp_all add: valid_name_def)
  have ls: "last_segment p = n" unfolding d(1) by (rule render_path_last_segment[OF n(2)])
  show "ext (path_parse p) = ext_of_base (last_segment p)"
    unfolding ls unfolding d(1) path_parse_render[OF d(2) n] by simp
  have "p \<noteq> []" unfolding d(1) using render_path_hd(1)[OF _ , of "ys @ [n]" a] d(2) n by simp
  moreover have "last p \<noteq> CHR ''/''" unfolding d(1) by (rule render_path_last[OF n])
  ultimately have "strip_slashes p = p" by (rule strip_slashes_id)
  then show "path_extname p = ext_of_base (last_segment p)" by (simp add: path_extname_def)
qed

lemma assetGroupName_other:
  assumes "artifact_path p" and "ext (path_parse p) \<noteq> ''.map''"
  shows "assetGroupName p = p"
proof -
  from assms(1) obtain a ys n where d: "p = render_path a (ys @ [n])"
    "\<forall>s \<in> set ys. s \<noteq> [] \<and> CHR ''/'' \<notin> set s" "valid_name n"
    by (rule artifact_path_decompose)
  then have n: "n \<noteq> []" "CHR ''/'' \<notin> set n" by (simp_all add: valid_name_def)
  have "path_format (path_parse p) = p"
    unfolding d(1) by (rule path_format_parse_render[OF d(2) n])
  then show ?thesis using assms(2) by (simp add: assetGroupName_def Let_def)
qed

lemma assetGroupName_map:
  assumes "artifact_path p" and "ext (path_parse p) = ''.map''"
      and "last_segment p \<noteq> ''..map''" and "last_segment p \<noteq> ''...map''"
  shows "assetGroupName p @ ''.map'' = p"
proof -
  from assms(1) obtain a ys n where d: "p = render_path a (ys @ [n])"
    "\<forall>s \<in> set ys. s \<noteq> [] \<and> CHR ''/'' \<notin> set s" "norm_segs (\<not> a) ys = ys" "valid_name n"
    by (rule artifact_path_decompose)
  then have n: "n \<noteq> []" "CHR ''/'' \<notin> set n" by (simp_all add: valid_name_def)
  have ls: "last_segment p = n" unfolding d(1) by (rule render_path_last_segment[OF n(2)])
  have pp: "path_parse p =
         \<lparr>root = (if a then ''/'' else []),
          dir = (if ys = [] then (if a then ''/'' else []) else render_path a ys),
          base = n, ext = ext_of_base n,
          name = take (length n - length (ext_of_base n)) n\<rparr>"
    unfolding d(1) by (rule path_parse_render[OF d(2) n])
  from assms(2) pp have e: "ext_of_base n = ''.map''" by simp
  from ext_map_decompose[OF e] obtain b where b: "b \<noteq> []" "n = b @ ''.map''"
    "take (length n - length (ext_of_base n)) n = b" by blast
  have "b \<noteq> ''.''" "b \<noteq> ''..''" using assms(3,4) ls b(2) by auto
  moreover have "CHR ''/'' \<notin> set b" using n(2) b(2) by simp
  ultimately have vb: "valid_name b" using b(1) by (simp add: valid_name_def)
  have "assetGroupName p =
        path_join [if ys = [] then (if a then ''/'' else []) else render_path a ys, b]"
    using e b(3) by (simp add: assetGroupName_def Let_def pp)
  also have "\<dots> = render_path a (ys @ [b])" by (rule path_join_render[OF d(2,3) vb])
  finally show ?thesis unfolding d(1) b(2) by (simp add: render_path_snoc_append)
qed

lemma assetGroupName_spec:
  assumes "artifact_path p"
      and "last_segment p \<noteq> ''..map''" and "last_segment p \<noteq> ''...map''"
  shows "assetGroupName p = spec_group_key p"
proof (cases "ext (path_parse p) = ''.map''")
  case True
  have eq: "assetGroupName p @ ''.map'' = p"
    by (rule assetGroupName_map[OF assms(1) True assms(2,3)])
  have "length (assetGroupName p @ ''.map'') = length p" by (simp only: eq)
  then have len: "length p - 4 = length (assetGroupName p)" by simp
  have "take (length p - 4) p = take (length (assetGroupName p)) (assetGroupName p @ ''.map'')"
    by (simp only: len eq)
  then have "take (length p - 4) p = assetGroupName p" by simp
  then show ?thesis using True artifact_path_ext[OF assms(1)] by (simp add: spec_group_key_def)
next
  case False
  then show ?thesis
    using assetGroupName_other[OF assms(1) False] artifact_path_ext[OF assms(1)]
    by (simp add: spec_group_key_def)
qed

lemma assetGroupName_counterpart:
  assumes "artifact_path q"
  shows "artifact_path (q @ ''.map'')" and "assetGroupName (q @ ''.map'') @ ''.map'' = q @ ''.map''"
proof -
  from assms obtain a ys n where d: "q = render_path a (ys @ [n])"
    "\<forall>s \<in> set ys. s \<noteq> [] \<and> CHR ''/'' \<notin> set s" "norm_segs (\<not> a) ys = ys" "valid_name n"
    "isAsset n"
    by (rule artifact_path_decompose)
  then have n: "n \<noteq> []" "CHR ''/'' \<notin> set n" by (simp_all add: valid_name_def)
  let ?m = "n @ ''.map''"
  have m: "?m \<noteq> []" "CHR ''/'' \<notin> set ?m" using n by simp_all
  have vm: "valid_name ?m" using m by (auto simp: valid_name_def)
  have qm: "q @ ''.map'' = render_path a (ys @ [?m])"
    unfolding d(1) by (simp add: render_path_snoc_append)
  have ok: "\<forall>s \<in> set (ys @ [?m]). s \<noteq> [] \<and> CHR ''/'' \<notin> set s" using d(2) m by auto
  have fx: "norm_segs (\<not> a) (ys @ [?m]) = ys @ [?m]"
    unfolding norm_segs_snoc[OF vm] d(3) ..
  have "path_normalize (render_path a (ys @ [?m])) = render_path a (ys @ [?m])"
    by (rule path_normalize_render[OF _ ok render_path_last[OF m] fx]) simp
  moreover have ls: "last_segment (render_path a (ys @ [?m])) = ?m"
    by (rule render_path_last_segment[OF m(2)])
  moreover have "isAsset ?m" by (simp add: isAsset_def suffix_def)
  ultimately show ap: "artifact_path (q @ ''.map'')" unfolding qm artifact_path_def by simp
  have e: "ext (path_parse (q @ ''.map'')) = ''.map''"
    using artifact_path_ext(1)[OF ap] ls qm ext_of_base_map[OF n(1)] by simp
  have "?m \<noteq> ''..map''" "?m \<noteq> ''...map''" using d(4) by (auto simp: valid_name_def)
  then show "assetGroupName (q @ ''.map'') @ ''.map'' = q @ ''.map''"
    using assetGroupName_map[OF ap e] ls qm by simp
qed

subsection \<open>Grouping\<close>

lemma js_get_Own: "js_get g k = Own v \<longleftrightarrow> map_of g k = Some v"
  by (auto simp: js_get_def split: option.splits)

lemma js_get_Undefined:
  "js_get g k = Undefined \<longleftrightarrow> map_of g k = None \<and> k \<notin> set Object_prototype_names"
  by (auto simp: js_get_def split: option.splits)


lemma proto_name_proto: "''__proto__'' \<in> set Object_prototype_names"
  by (simp add: Object_prototype_names_def)

lemma map_of_replace_other:
  "k'' \<noteq> k \<Longrightarrow>
   map_of (map (\<lambda>(k', v'). if k' = k then (k', v) else (k', v')) g) k'' = map_of g k''"
proof (induction g)
  case Nil
  show ?case by simp
next
  case (Cons kv g)
  obtain a b where kv: "kv = (a, b)" by (cases kv)
  show ?case using Cons unfolding kv by (cases "a = k") simp_all
qed

lemma map_of_replace_same:
  "k \<in> fst ` set g \<Longrightarrow>
   map_of (map (\<lambda>(k', v'). if k' = k then (k', v) else (k', v')) g) k = Some v"
proof (induction g)
  case Nil
  then show ?case by simp
next
  case (Cons kv g)
  obtain a b where kv: "kv = (a, b)" by (cases kv)
  show ?case
  proof (cases "a = k")
    case True
    then show ?thesis unfolding kv by simp
  next
    case False
    with Cons.prems have "k \<in> fst ` set g" unfolding kv by auto
    from Cons.IH[OF this] False show ?thesis unfolding kv by simp
  qed
qed

lemma map_of_js_set:
  "k \<noteq> ''__proto__'' \<Longrightarrow> map_of (js_set g k v) k' = (if k' = k then Some v else map_of g k')"
proof (cases "k \<in> fst ` set g")
  case True
  assume "k \<noteq> ''__proto__''"
  with True show ?thesis
    by (cases "k' = k") (simp_all add: js_set_def map_of_replace_other map_of_replace_same)
next
  case False
  assume k: "k \<noteq> ''__proto__''"
  from False have "map_of g k = None" by (simp add: map_of_eq_None_iff)
  with False k show ?thesis
    by (cases "k' = k") (simp_all add: js_set_def map_add_def split: option.splits)
qed

lemma keys_js_set:
  "map fst (js_set g k v) =
     (if k = ''__proto__'' \<or> k \<in> fst ` set g then map fst g else map fst g @ [k])"
proof -
  have "map fst (map (\<lambda>(k', v'). if k' = k then (k', v) else (k', v')) g) = map fst g"
  proof (induction g)
    case Nil
    show ?case by simp
  next
    case (Cons kv g)
    obtain a b where kv: "kv = (a, b)" by (cases kv)
    show ?case using Cons unfolding kv by simp
  qed
  then show ?thesis by (simp add: js_set_def)
qed

lemma distinct_js_set: "distinct (map fst g) \<Longrightarrow> distinct (map fst (js_set g k v))"
  by (simp add: keys_js_set)

lemma no_proto_js_set:
  "''__proto__'' \<notin> fst ` set g \<Longrightarrow> ''__proto__'' \<notin> fst ` set (js_set g k v)"
proof -
  assume a: "''__proto__'' \<notin> fst ` set g"
  have "set (map fst (js_set g k v)) \<subseteq> set (map fst g) \<union> (if k = ''__proto__'' then {} else {k})"
    unfolding keys_js_set by auto
  then show ?thesis using a by (auto split: if_splits)
qed

lemma groupAssets_loop_files:
  assumes "groupAssets_loop g ps = Inr g'" and "''__proto__'' \<notin> fst ` set g"
  shows "map_of g' k =
           (if filter (\<lambda>p. assetGroupName p = k) ps = [] then map_of g k
            else Some ((case map_of g k of None \<Rightarrow> [] | Some fs \<Rightarrow> fs)
                       @ filter (\<lambda>p. assetGroupName p = k) ps))"
  using assms
proof (induction ps arbitrary: g)
  case Nil
  then show ?case by simp
next
  case (Cons p ps)
  let ?k = "assetGroupName p"
  show ?case
  proof (cases "js_get g ?k")
    case Inherited
    with Cons.prems show ?thesis by simp
  next
    case Undefined
    then have u: "map_of g ?k = None" "?k \<noteq> ''__proto__''"
      using proto_name_proto by (auto simp: js_get_Undefined)
    from Cons.prems Undefined have "groupAssets_loop (js_set g ?k [p]) ps = Inr g'" by simp
    from Cons.IH[OF this no_proto_js_set[OF Cons.prems(2)]] show ?thesis
      using u by (auto simp: map_of_js_set)
  next
    case (Own files)
    then have o: "map_of g ?k = Some files" by (simp add: js_get_Own)
    have np: "?k \<noteq> ''__proto__''"
    proof
      assume "?k = ''__proto__''"
      with o have "''__proto__'' \<in> fst ` set g" by (metis map_of_SomeD fst_conv image_eqI)
      with Cons.prems(2) show False by simp
    qed
    from Cons.prems Own have "groupAssets_loop (js_set g ?k (files @ [p])) ps = Inr g'" by simp
    from Cons.IH[OF this no_proto_js_set[OF Cons.prems(2)]] show ?thesis
      using o np by (auto simp: map_of_js_set)
  qed
qed

lemma groupAssets_loop_distinct:
  "groupAssets_loop g ps = Inr g' \<Longrightarrow> distinct (map fst g) \<Longrightarrow> distinct (map fst g')"
proof (induction ps arbitrary: g)
  case Nil
  then show ?case by simp
next
  case (Cons p ps)
  show ?case
  proof (cases "js_get g (assetGroupName p)")
    case Inherited
    with Cons.prems show ?thesis by simp
  next
    case Undefined
    with Cons.prems have "groupAssets_loop (js_set g (assetGroupName p) [p]) ps = Inr g'" by simp
    from Cons.IH[OF this distinct_js_set[OF Cons.prems(2)]] show ?thesis .
  next
    case (Own files)
    with Cons.prems have
      "groupAssets_loop (js_set g (assetGroupName p) (files @ [p])) ps = Inr g'" by simp
    from Cons.IH[OF this distinct_js_set[OF Cons.prems(2)]] show ?thesis .
  qed
qed


lemma groupAssets_files:
  assumes "groupAssets ps = Inr g'"
  shows "map_of g' k =
           (if filter (\<lambda>p. assetGroupName p = k) ps = [] then None
            else Some (filter (\<lambda>p. assetGroupName p = k) ps))"
  using groupAssets_loop_files[of "[]" ps g' k] assms by (simp add: groupAssets_def)

lemma groupAssets_distinct: "groupAssets ps = Inr g' \<Longrightarrow> distinct (map fst g')"
  using groupAssets_loop_distinct[of "[]" ps g'] by (simp add: groupAssets_def)

lemma groupAssets_member:
  assumes "groupAssets ps = Inr g'"
  shows "(k, fs) \<in> set g' \<longleftrightarrow>
         fs = filter (\<lambda>p. assetGroupName p = k) ps \<and> fs \<noteq> []"
proof -
  have "(k, fs) \<in> set g' \<longleftrightarrow> map_of g' k = Some fs"
    using groupAssets_distinct[OF assms] by simp
  then show ?thesis unfolding groupAssets_files[OF assms] by auto
qed

lemma counterpart_extname:
  assumes "artifact_path q"
  shows "path_extname (q @ ''.map'') = ''.map''"
proof -
  from assms obtain a ys n where d: "q = render_path a (ys @ [n])" "valid_name n"
    by (rule artifact_path_decompose)
  then have n: "n \<noteq> []" "CHR ''/'' \<notin> set n" by (simp_all add: valid_name_def)
  have "last_segment (q @ ''.map'') = n @ ''.map''"
    unfolding d(1) render_path_snoc_append[symmetric]
    by (rule render_path_last_segment) (use n in simp)
  then show ?thesis
    using artifact_path_ext(2)[OF assetGroupName_counterpart(1)[OF assms]] ext_of_base_map[OF n(1)]
    by simp
qed



text \<open>
  C2, as the code has it. For paths as the walker produces them (normalised, the last
  segment an asset name) other than sourcemaps named \<^verbatim>\<open>..map\<close> or \<^verbatim>\<open>...map\<close>, and
  when the grouping returns (no group key is the name of a member of
  \<^verbatim>\<open>Object.prototype\<close>): every path is in exactly one group, the group whose key is the
  path without its \<^verbatim>\<open>.map\<close> extension for a sourcemap and the path itself otherwise;
  the keys are distinct; and every file that is not a sourcemap has a group of its own,
  keyed by its path, that holds it and its sourcemap and nothing else, so that a bundle
  with its sourcemap and a bytecode file with its sourcemap are two groups.
\<close>

theorem grouping_by_sourcemap_stem:
  assumes "\<forall>p \<in> set assetPaths. artifact_path p \<and> last_segment p \<noteq> ''..map'' \<and>
             last_segment p \<noteq> ''...map''"
      and "groupAssets assetPaths = Inr groups"
  shows "(\<forall>p \<in> set assetPaths. \<forall>k files.
            (k, files) \<in> set groups \<and> p \<in> set files \<longleftrightarrow>
            k = spec_group_key p \<and> files = filter (\<lambda>q. spec_group_key q = k) assetPaths) \<and>
         distinct (map fst groups) \<and>
         (\<forall>q \<in> set assetPaths. path_extname q \<noteq> ''.map'' \<longrightarrow>
            (q, filter (\<lambda>f. f = q \<or> f = q @ ''.map'') assetPaths) \<in> set groups)"
proof -
  have key: "\<And>p. p \<in> set assetPaths \<Longrightarrow> assetGroupName p = spec_group_key p"
    using assms(1) assetGroupName_spec by blast
  have fl: "\<And>k. filter (\<lambda>q. assetGroupName q = k) assetPaths =
                 filter (\<lambda>q. spec_group_key q = k) assetPaths"
    using key by (intro filter_cong) auto
  have a: "\<forall>p \<in> set assetPaths. \<forall>k files.
            (k, files) \<in> set groups \<and> p \<in> set files \<longleftrightarrow>
            k = spec_group_key p \<and> files = filter (\<lambda>q. spec_group_key q = k) assetPaths"
  proof (intro ballI allI)
    fix p k files
    assume p: "p \<in> set assetPaths"
    show "(k, files) \<in> set groups \<and> p \<in> set files \<longleftrightarrow>
          k = spec_group_key p \<and> files = filter (\<lambda>q. spec_group_key q = k) assetPaths"
    proof -
      have "p \<in> set (filter (\<lambda>q. spec_group_key q = spec_group_key p) assetPaths)"
        using p by simp
      then have ne: "filter (\<lambda>q. spec_group_key q = spec_group_key p) assetPaths \<noteq> []"
        by (metis empty_iff list.set(1))
      show ?thesis unfolding groupAssets_member[OF assms(2)] fl using p ne by auto
    qed
  qed
  have c: "\<forall>q \<in> set assetPaths. path_extname q \<noteq> ''.map'' \<longrightarrow>
            (q, filter (\<lambda>f. f = q \<or> f = q @ ''.map'') assetPaths) \<in> set groups"
  proof (intro ballI impI)
    fix q
    assume q: "q \<in> set assetPaths" and nm: "path_extname q \<noteq> ''.map''"
    then have aq: "artifact_path q" using assms(1) by blast
    have kq: "spec_group_key q = q" using nm by (simp add: spec_group_key_def)
    have "filter (\<lambda>f. spec_group_key f = q) assetPaths =
          filter (\<lambda>f. f = q \<or> f = q @ ''.map'') assetPaths"
    proof (rule filter_cong[OF refl])
      fix f
      assume f: "f \<in> set assetPaths"
      then have af: "artifact_path f" "last_segment f \<noteq> ''..map''" "last_segment f \<noteq> ''...map''"
        using assms(1) by blast+
      show "(spec_group_key f = q) = (f = q \<or> f = q @ ''.map'')"
      proof (cases "path_extname f = ''.map''")
        case False
        then have "f \<noteq> q @ ''.map''" using counterpart_extname[OF aq] by auto
        then show ?thesis using False by (auto simp: spec_group_key_def)
      next
        case True
        then have e: "ext (path_parse f) = ''.map''" using artifact_path_ext[OF af(1)] by simp
        have m: "spec_group_key f @ ''.map'' = f"
          using assetGroupName_map[OF af(1) e af(2,3)] key[OF f] by simp
        have "f \<noteq> q" using True nm by auto
        moreover have "spec_group_key f = q \<longleftrightarrow> f = q @ ''.map''" using m by auto
        ultimately show ?thesis by simp
      qed
    qed
    moreover have "q \<in> set (filter (\<lambda>f. spec_group_key f = q) assetPaths)" using q kq by simp
    ultimately show "(q, filter (\<lambda>f. f = q \<or> f = q @ ''.map'') assetPaths) \<in> set groups"
      unfolding groupAssets_member[OF assms(2)] fl by (metis empty_iff list.set(1))
  qed
  show ?thesis using a c groupAssets_distinct[OF assms(2)] by blast
qed

lemma distinct_all_equal: "distinct xs \<Longrightarrow> \<forall>x \<in> set xs. x = c \<Longrightarrow> length xs \<le> 1"
proof (cases xs)
  case Nil
  then show ?thesis by simp
next
  case (Cons a ys)
  assume d: "distinct xs" and e: "\<forall>x \<in> set xs. x = c"
  show ?thesis
  proof (cases ys)
    case Nil
    with Cons show ?thesis by simp
  next
    case (Cons b zs)
    with \<open>xs = a # ys\<close> d e show ?thesis by auto
  qed
qed

text \<open>
  C9, as the code has it. For distinct paths as the walker produces them, other than
  sourcemaps named \<^verbatim>\<open>..map\<close> or \<^verbatim>\<open>...map\<close>, every group holds at most one sourcemap
  and at most one other file: the key of a file that is not a sourcemap is its own path,
  and two different sourcemaps have different keys.
\<close>

theorem group_at_most_one_of_each_kind:
  assumes "\<forall>p \<in> set assetPaths. artifact_path p \<and> last_segment p \<noteq> ''..map'' \<and>
             last_segment p \<noteq> ''...map''"
      and "distinct assetPaths"
      and "groupAssets assetPaths = Inr groups"
  shows "(\<forall>(k, files) \<in> set groups.
            length (filter (\<lambda>f. ext (path_parse f) = ''.map'') files) \<le> 1 \<and>
            length (filter (\<lambda>f. ext (path_parse f) \<noteq> ''.map'') files) \<le> 1) \<and>
         (\<forall>p \<in> set assetPaths. ext (path_parse p) \<noteq> ''.map'' \<longrightarrow> assetGroupName p = p) \<and>
         (\<forall>p \<in> set assetPaths. \<forall>q \<in> set assetPaths.
            ext (path_parse p) = ''.map'' \<and> ext (path_parse q) = ''.map'' \<and>
            assetGroupName p = assetGroupName q \<longrightarrow> p = q)"
proof -
  have other: "\<And>p. p \<in> set assetPaths \<Longrightarrow> ext (path_parse p) \<noteq> ''.map'' \<Longrightarrow>
                 assetGroupName p = p"
    using assms(1) assetGroupName_other by blast
  have smap: "p = assetGroupName p @ ''.map''"
    if "p \<in> set assetPaths" "ext (path_parse p) = ''.map''" for p
  proof -
    from that(1) assms(1) have "artifact_path p" "last_segment p \<noteq> ''..map''"
      "last_segment p \<noteq> ''...map''" by blast+
    from assetGroupName_map[OF this(1) that(2) this(2,3)] show ?thesis by simp
  qed
  have a: "\<forall>(k, files) \<in> set groups.
            length (filter (\<lambda>f. ext (path_parse f) = ''.map'') files) \<le> 1 \<and>
            length (filter (\<lambda>f. ext (path_parse f) \<noteq> ''.map'') files) \<le> 1"
  proof (intro ballI, clarify)
    fix k files
    assume "(k, files) \<in> set groups"
    then have files: "files = filter (\<lambda>p. assetGroupName p = k) assetPaths"
      using groupAssets_member[OF assms(3)] by blast
    have d: "distinct files" unfolding files using assms(2) by simp
    have m: "\<forall>f \<in> set (filter (\<lambda>f. ext (path_parse f) = ''.map'') files). f = k @ ''.map''"
    proof
      fix f
      assume "f \<in> set (filter (\<lambda>f. ext (path_parse f) = ''.map'') files)"
      then have f: "f \<in> set assetPaths" "assetGroupName f = k" "ext (path_parse f) = ''.map''"
        unfolding files by simp_all
      from smap[OF f(1,3)] f(2) show "f = k @ ''.map''" by simp
    qed
    have o: "\<forall>f \<in> set (filter (\<lambda>f. ext (path_parse f) \<noteq> ''.map'') files). f = k"
    proof
      fix f
      assume "f \<in> set (filter (\<lambda>f. ext (path_parse f) \<noteq> ''.map'') files)"
      then have f: "f \<in> set assetPaths" "assetGroupName f = k" "ext (path_parse f) \<noteq> ''.map''"
        unfolding files by simp_all
      from other[OF f(1,3)] f(2) show "f = k" by simp
    qed
    show "length (filter (\<lambda>f. ext (path_parse f) = ''.map'') files) \<le> 1 \<and>
          length (filter (\<lambda>f. ext (path_parse f) \<noteq> ''.map'') files) \<le> 1"
      using distinct_all_equal[OF _ m] distinct_all_equal[OF _ o] d by simp
  qed
  have c: "\<forall>p \<in> set assetPaths. \<forall>q \<in> set assetPaths.
            ext (path_parse p) = ''.map'' \<and> ext (path_parse q) = ''.map'' \<and>
            assetGroupName p = assetGroupName q \<longrightarrow> p = q"
  proof (intro ballI impI, elim conjE)
    fix p q
    assume "p \<in> set assetPaths" "q \<in> set assetPaths" "ext (path_parse p) = ''.map''"
      "ext (path_parse q) = ''.map''" "assetGroupName p = assetGroupName q"
    then show "p = q" using smap[of p] smap[of q] by simp
  qed
  have b: "\<forall>p \<in> set assetPaths. ext (path_parse p) \<noteq> ''.map'' \<longrightarrow> assetGroupName p = p"
    using other by blast
  show ?thesis by (intro conjI a b c)
qed

text \<open>
  The claim C9 fails for \<^const>\<open>dotted_fs\<close>: the walker returns two sourcemaps,
  \<^verbatim>\<open>a.map\<close> and \<^verbatim>\<open>a/..map\<close>, and both are put in the group \<^verbatim>\<open>a\<close>, since
  \<^verbatim>\<open>path.join('a', '.')\<close> is \<^verbatim>\<open>a\<close>.
\<close>

theorem two_sourcemaps_in_one_group:
  "getAssetPathsSync dotted_fs ''.'' = Inr [''a.map'', ''a/..map''] \<and>
   groupAssets [''a.map'', ''a/..map''] = Inr [(''a'', [''a.map'', ''a/..map''])] \<and>
   ext (path_parse ''a.map'') = ''.map'' \<and> ext (path_parse ''a/..map'') = ''.map''"
  by code_simp

text \<open>
  The claim C2 fails for a sourcemap named \<^verbatim>\<open>...map\<close>: its extension is \<^verbatim>\<open>.map\<close>, the path
  without the extension is \<^verbatim>\<open>dist/sub/..\<close>, and the key of its group is \<^verbatim>\<open>dist\<close>.
\<close>

theorem sourcemap_key_not_the_stripped_path:
  "artifact_path ''dist/sub/...map'' \<and> path_extname ''dist/sub/...map'' = ''.map'' \<and>
   spec_group_key ''dist/sub/...map'' = ''dist/sub/..'' \<and>
   groupAssets [''dist/sub/...map''] = Inr [(''dist'', [''dist/sub/...map''])]"
  by code_simp

theorem grouping_by_sourcemap_stem_witness:
  "groupAssets [''dist/app.js'', ''dist/app.js.map'', ''dist/app.hbc'', ''dist/app.hbc.map'']
     = Inr [(''dist/app.js'', [''dist/app.js'', ''dist/app.js.map'']),
            (''dist/app.hbc'', [''dist/app.hbc'', ''dist/app.hbc.map''])] \<and>
   (''dist/app.hbc'',
    filter (\<lambda>f. f = ''dist/app.hbc'' \<or> f = ''dist/app.hbc'' @ ''.map'')
      [''dist/app.js'', ''dist/app.js.map'', ''dist/app.hbc'', ''dist/app.hbc.map''])
     \<in> set [(''dist/app.js'', [''dist/app.js'', ''dist/app.js.map'']),
             (''dist/app.hbc'', [''dist/app.hbc'', ''dist/app.hbc.map''])]"
proof -
  let ?L = "[''dist/app.js'', ''dist/app.js.map'', ''dist/app.hbc'', ''dist/app.hbc.map'']"
  let ?G = "[(''dist/app.js'', [''dist/app.js'', ''dist/app.js.map'']),
            (''dist/app.hbc'', [''dist/app.hbc'', ''dist/app.hbc.map''])]"
  have h1: "\<forall>p \<in> set ?L. artifact_path p \<and> last_segment p \<noteq> ''..map'' \<and>
             last_segment p \<noteq> ''...map''"
    by code_simp
  have h2: "groupAssets ?L = Inr ?G" by code_simp
  have q: "''dist/app.hbc'' \<in> set ?L" by simp
  have e: "path_extname ''dist/app.hbc'' \<noteq> ''.map''" by code_simp
  from grouping_by_sourcemap_stem[OF h1 h2] q e h2 show ?thesis by blast
qed

theorem group_at_most_one_of_each_kind_witness:
  "groupAssets [''out/ios.hbc.map'', ''out/ios.hbc'', ''out/web.js'']
     = Inr [(''out/ios.hbc'', [''out/ios.hbc.map'', ''out/ios.hbc'']),
            (''out/web.js'', [''out/web.js''])] \<and>
   distinct [''out/ios.hbc.map'', ''out/ios.hbc'', ''out/web.js''] \<and>
   length (filter (\<lambda>f. ext (path_parse f) = ''.map'') [''out/ios.hbc.map'', ''out/ios.hbc'']) \<le> 1 \<and>
   length (filter (\<lambda>f. ext (path_parse f) \<noteq> ''.map'') [''out/ios.hbc.map'', ''out/ios.hbc'']) \<le> 1"
proof -
  let ?L = "[''out/ios.hbc.map'', ''out/ios.hbc'', ''out/web.js'']"
  let ?G = "[(''out/ios.hbc'', [''out/ios.hbc.map'', ''out/ios.hbc'']),
            (''out/web.js'', [''out/web.js''])]"
  have h1: "\<forall>p \<in> set ?L. artifact_path p \<and> last_segment p \<noteq> ''..map'' \<and>
             last_segment p \<noteq> ''...map''"
    by code_simp
  have h2: "distinct ?L" by simp
  have h3: "groupAssets ?L = Inr ?G" by code_simp
  have m: "(''out/ios.hbc'', [''out/ios.hbc.map'', ''out/ios.hbc'']) \<in> set ?G" by simp
  from group_at_most_one_of_each_kind[OF h1 h2 h3] m h2 h3 show ?thesis by blast
qed

subsection \<open>The file system and the walker\<close>

lemma lookup_append:
  "lookup fs (xs @ ys) = (case lookup fs xs of None \<Rightarrow> None | Some c \<Rightarrow> lookup c ys)"
proof (induction fs xs rule: lookup.induct)
  case (1 n)
  show ?case by simp
next
  case (2 items s ss)
  show ?case
  proof (cases "map_of items s")
    case None
    then show ?thesis by simp
  next
    case (Some child)
    then show ?thesis using 2 by simp
  qed
qed simp_all

lemma lookup_Dir_child: "lookup (Dir items) [s] = map_of items s"
  by (cases "map_of items s") simp_all

lemma lookup_prefix_None: "lookup fs xs = None \<Longrightarrow> prefix xs ys \<Longrightarrow> lookup fs ys = None"
  by (auto simp: prefix_def lookup_append)


lemma blocked_lookup_None: "blocked fs xs \<Longrightarrow> lookup fs xs = None"
proof (induction fs xs rule: blocked.induct)
  case (1 n)
  then show ?case by simp
next
  case (2 items s ss)
  then show ?case by (cases "map_of items s") simp_all
qed simp_all

lemma map_of_replace_entry:
  "map_of (replace_entry s child items) k =
     (if k = s \<and> map_of items s \<noteq> None then Some child else map_of items k)"
  by (induction s child items rule: replace_entry.induct) auto

lemma replace_entry_same: "map_of items s = Some child \<Longrightarrow> replace_entry s child items = items"
  by (induction s child items rule: replace_entry.induct) (auto split: if_splits)

lemma keys_replace_entry: "map fst (replace_entry s child items) = map fst items"
  by (induction s child items rule: replace_entry.induct) auto


lemma lookup_remove_at_self: "xs \<noteq> [] \<Longrightarrow> lookup (remove_at xs fs) xs = None"
proof (induction xs fs rule: remove_at.induct)
  case (1 n)
  then show ?case by simp
next
  case (2 s items)
  have "map_of (filter (\<lambda>item. fst item \<noteq> s) items) s = None"
    by (auto simp: map_of_eq_None_iff)
  then show ?case by simp
next
  case (3 s t ss items)
  show ?case
  proof (cases "map_of items s")
    case None
    then show ?thesis by simp
  next
    case (Some child)
    with 3 have "lookup (remove_at (t # ss) child) (t # ss) = None" by simp
    then show ?thesis using Some by (simp add: map_of_replace_entry)
  qed
qed simp_all

lemma remove_at_idem: "remove_at xs (remove_at xs fs) = remove_at xs fs"
proof (induction xs fs rule: remove_at.induct)
  case (1 n)
  then show ?case by simp
next
  case (2 s items)
  show ?case by simp
next
  case (3 s t ss items)
  show ?case
  proof (cases "map_of items s")
    case None
    then show ?thesis by simp
  next
    case (Some child)
    with 3 have ih: "remove_at (t # ss) (remove_at (t # ss) child) = remove_at (t # ss) child"
      by simp
    have m: "map_of (replace_entry s (remove_at (t # ss) child) items) s
               = Some (remove_at (t # ss) child)"
      using Some by (simp add: map_of_replace_entry)
    show ?thesis using Some m ih by (simp add: replace_entry_same)
  qed
qed simp_all

lemma blocked_remove_at: "blocked (remove_at xs fs) xs = blocked fs xs"
proof (induction xs fs rule: remove_at.induct)
  case (1 n)
  then show ?case by simp
next
  case (2 s items)
  have "map_of (filter (\<lambda>item. fst item \<noteq> s) items) s = None"
    by (auto simp: map_of_eq_None_iff)
  then show ?case by (cases "map_of items s") simp_all
next
  case (3 s t ss items)
  show ?case
  proof (cases "map_of items s")
    case None
    then show ?thesis by simp
  next
    case (Some child)
    with 3 show ?thesis by (simp add: map_of_replace_entry)
  qed
qed simp_all

lemma wf_replace_entry:
  "wf_node (Dir items) \<Longrightarrow> wf_node child \<Longrightarrow> valid_name s \<Longrightarrow>
   wf_node (Dir (replace_entry s child items))"
proof -
  assume w: "wf_node (Dir items)" "wf_node child" "valid_name s"
  have "set (replace_entry s child items) \<subseteq> insert (s, child) (set items)"
    by (induction s child items rule: replace_entry.induct) auto
  then show ?thesis using w by (auto simp: keys_replace_entry)
qed

lemma wf_remove_at: "wf_node fs \<Longrightarrow> wf_node (remove_at xs fs)"
proof (induction xs fs rule: remove_at.induct)
  case (1 n)
  then show ?case by simp
next
  case (2 s items)
  then show ?case by (auto simp: distinct_map_filter)
next
  case (3 s t ss items)
  show ?case
  proof (cases "map_of items s")
    case None
    then show ?thesis using 3 by simp
  next
    case (Some child)
    then have in_items: "(s, child) \<in> set items" by (rule map_of_SomeD)
    with 3(2) have "wf_node child" "valid_name s" by auto
    with 3(1)[OF Some] have "wf_node (remove_at (t # ss) child)" by simp
    then show ?thesis
      using Some wf_replace_entry[OF 3(2) _ \<open>valid_name s\<close>] by simp
  qed
qed simp_all

lemma wf_lookup: "wf_node fs \<Longrightarrow> lookup fs xs = Some c \<Longrightarrow> wf_node c"
proof (induction fs xs rule: lookup.induct)
  case (1 n)
  then show ?case by simp
next
  case (2 items s ss)
  from 2(3) obtain child where ch: "map_of items s = Some child" "lookup child ss = Some c"
    by (auto split: option.splits)
  then have "(s, child) \<in> set items" by (simp add: map_of_SomeD)
  with 2(2) have "wf_node child" by auto
  from 2(1)[OF ch(1) this ch(2)] show ?case .
qed simp_all

lemma path_normalize_nonempty: "path_normalize p \<noteq> []"
  by (simp add: path_normalize_def Let_def)

lemma path_join_nonempty: "path_join args \<noteq> []"
  by (simp add: path_join_def Let_def path_normalize_nonempty)

lemma valid_name_tmp: "valid_name TMP_DIR"
  by (simp add: valid_name_def TMP_DIR_def)

lemma resolve_tmp: "d \<noteq> [] \<Longrightarrow> resolve (path_join [d, TMP_DIR]) = resolve d @ [TMP_DIR]"
  by (rule resolve_path_join[OF _ valid_name_tmp])

lemma strict_prefix_snoc_left:
  assumes "strict_prefix (xs @ [n]) ys"
  shows "strict_prefix xs ys"
proof -
  from assms obtain zs where "ys = (xs @ [n]) @ zs" by (auto simp: strict_prefix_def prefix_def)
  then have "ys = xs @ (n # zs)" by simp
  then show ?thesis by (simp add: strict_prefix_def)
qed

lemma walk_sound:
  assumes "d \<noteq> []"
      and "\<forall>item \<in> set items. valid_name (fst item) \<and> wf_node (snd item) \<and>
             lookup fs (resolve d @ [fst item]) = Some (snd item)"
      and "p \<in> set (getAssetPaths_items d items)"
  shows "artifact_path p \<and> (\<exists>content. lookup fs (resolve p) = Some (File content)) \<and>
         strict_prefix (resolve d) (resolve p)"
  using assms
proof (induction d items arbitrary: p rule: getAssetPaths_items.induct)
  case (1 directory)
  then show ?case by simp
next
  case (2 directory item_name sub items)
  from 2(4) have here: "valid_name item_name" "wf_node (Dir sub)"
    "lookup fs (resolve directory @ [item_name]) = Some (Dir sub)" by simp_all
  from 2(4) have rest: "\<forall>item \<in> set items. valid_name (fst item) \<and> wf_node (snd item) \<and>
             lookup fs (resolve directory @ [fst item]) = Some (snd item)" by simp
  let ?d' = "path_join [directory, item_name]"
  have r: "resolve ?d' = resolve directory @ [item_name]"
    by (rule resolve_path_join[OF 2(3) here(1)])
  from 2(5) consider (sub) "p \<in> set (getAssetPaths_items ?d' sub)"
    | (tail) "p \<in> set (getAssetPaths_items directory items)" by auto
  then show ?case
  proof cases
    case tail
    from 2(2)[OF 2(3) rest tail] show ?thesis .
  next
    case sub
    have H: "\<forall>item \<in> set sub. valid_name (fst item) \<and> wf_node (snd item) \<and>
             lookup fs (resolve ?d' @ [fst item]) = Some (snd item)"
    proof
      fix item
      assume i: "item \<in> set sub"
      obtain m c where item: "item = (m, c)" by (cases item)
      from here(2) i item have v: "valid_name m" "wf_node c" "distinct (map fst sub)" by auto
      from v(3) i item have "map_of sub m = Some c" by simp
      then have "lookup fs (resolve ?d' @ [m]) = Some c"
        unfolding r using here(3)
          lookup_append[of fs "resolve directory @ [item_name]" "[m]"]
        by (simp add: lookup_Dir_child)
      with v item show "valid_name (fst item) \<and> wf_node (snd item) \<and>
             lookup fs (resolve ?d' @ [fst item]) = Some (snd item)" by simp
    qed
    from 2(1)[OF path_join_nonempty H sub]
    have "artifact_path p" "\<exists>content. lookup fs (resolve p) = Some (File content)"
      "strict_prefix (resolve ?d') (resolve p)" by blast+
    moreover from this(3) have "strict_prefix (resolve directory) (resolve p)"
      unfolding r by (rule strict_prefix_snoc_left)
    ultimately show ?thesis by blast
  qed
next
  case (3 directory item_name content items)
  from 3(3) have here: "valid_name item_name"
    "lookup fs (resolve directory @ [item_name]) = Some (File content)" by simp_all
  from 3(3) have rest: "\<forall>item \<in> set items. valid_name (fst item) \<and> wf_node (snd item) \<and>
             lookup fs (resolve directory @ [fst item]) = Some (snd item)" by simp
  from 3(4) consider (here) "isAsset item_name" "p = path_join [directory, item_name]"
    | (tail) "p \<in> set (getAssetPaths_items directory items)" by (auto split: if_splits)
  then show ?case
  proof cases
    case tail
    from 3(1)[OF 3(2) rest tail] show ?thesis .
  next
    case h: here
    have ns: "CHR ''/'' \<notin> set item_name" using here(1) by (simp add: valid_name_def)
    have r: "resolve p = resolve directory @ [item_name]"
      unfolding h(2) by (rule resolve_path_join[OF 3(2) here(1)])
    have "artifact_path p" unfolding h(2) by (rule path_join_artifact[OF 3(2) ns h(1)])
    moreover have "lookup fs (resolve p) = Some (File content)" unfolding r by (rule here(2))
    moreover have "strict_prefix (resolve directory) (resolve p)"
      unfolding r by (simp add: strict_prefix_def)
    ultimately show ?thesis by blast
  qed
next
  case (4 directory item_name items)
  from 4(3) have rest: "\<forall>item \<in> set items. valid_name (fst item) \<and> wf_node (snd item) \<and>
             lookup fs (resolve directory @ [fst item]) = Some (snd item)" by simp
  from 4(4) have "p \<in> set (getAssetPaths_items directory items)" by simp
  from 4(1)[OF 4(2) rest this] show ?case .
qed

lemma getAssetPathsSync_sound:
  assumes "d \<noteq> []" and "wf_node fs" and "getAssetPathsSync fs d = Inr files" and "p \<in> set files"
  shows "artifact_path p \<and> (\<exists>content. lookup fs (resolve p) = Some (File content)) \<and>
         strict_prefix (resolve d) (resolve p)"
proof -
  from assms(3) obtain items where l: "lookup fs (resolve d) = Some (Dir items)"
    and f: "files = getAssetPaths_items d items"
    by (auto simp: getAssetPathsSync_def split: option.splits node.splits)
  have w: "wf_node (Dir items)" by (rule wf_lookup[OF assms(2) l])
  have H: "\<forall>item \<in> set items. valid_name (fst item) \<and> wf_node (snd item) \<and>
             lookup fs (resolve d @ [fst item]) = Some (snd item)"
  proof
    fix item
    assume i: "item \<in> set items"
    obtain m c where item: "item = (m, c)" by (cases item)
    from w i item have v: "valid_name m" "wf_node c" "distinct (map fst items)" by auto
    from v(3) i item have "map_of items m = Some c" by simp
    then have "lookup fs (resolve d @ [m]) = Some c"
      using l lookup_append[of fs "resolve d" "[m]"] by (simp add: lookup_Dir_child)
    with v item show "valid_name (fst item) \<and> wf_node (snd item) \<and>
             lookup fs (resolve d @ [fst item]) = Some (snd item)" by simp
  qed
  show ?thesis using walk_sound[OF assms(1) H] assms(4) f by simp
qed

lemma map_of_filter_other:
  "y \<noteq> s \<Longrightarrow> map_of (filter (\<lambda>item. fst item \<noteq> s) items) y = map_of items y"
  by (induction items) auto

lemma remove_at_missing: "lookup fs xs = None \<Longrightarrow> remove_at xs fs = fs"
proof (induction xs fs rule: remove_at.induct)
  case (1 n)
  then show ?case by simp
next
  case (2 s items)
  then have "map_of items s = None" by (cases "map_of items s") simp_all
  then have "s \<notin> fst ` set items" by (simp add: map_of_eq_None_iff)
  then have "filter (\<lambda>item. fst item \<noteq> s) items = items" by (auto simp: filter_id_conv)
  then show ?case by simp
next
  case (3 s t ss items)
  show ?case
  proof (cases "map_of items s")
    case None
    then show ?thesis by simp
  next
    case (Some child)
    with 3(2) have "lookup child (t # ss) = None" by simp
    with 3(1)[OF Some] have "remove_at (t # ss) child = child" by simp
    with Some show ?thesis by (simp add: replace_entry_same)
  qed
qed simp_all

lemma lookup_remove_at_other:
  "\<not> prefix xs ys \<Longrightarrow> \<not> prefix ys xs \<Longrightarrow> lookup (remove_at xs fs) ys = lookup fs ys"
proof (induction xs fs arbitrary: ys rule: remove_at.induct)
  case (1 n)
  then show ?case by simp
next
  case (2 s items)
  from 2 obtain y ys' where ys: "ys = y # ys'" "y \<noteq> s" by (cases ys) auto
  then show ?case by (simp add: map_of_filter_other)
next
  case (3 s t ss items)
  from 3(3) obtain y ys' where ys: "ys = y # ys'" by (cases ys) auto
  show ?case
  proof (cases "map_of items s")
    case None
    then show ?thesis by simp
  next
    case (Some child)
    show ?thesis
    proof (cases "y = s")
      case True
      with 3(2,3) ys have "\<not> prefix (t # ss) ys'" "\<not> prefix ys' (t # ss)" by simp_all
      from 3(1)[OF Some this] show ?thesis
        using Some True ys by (simp add: map_of_replace_entry)
    next
      case False
      then show ?thesis using Some ys by (simp add: map_of_replace_entry)
    qed
  qed
qed simp_all

lemma lookup_remove_at_parent:
  "lookup fs xs = Some (Dir items) \<Longrightarrow>
   lookup (remove_at (xs @ [s]) fs) xs = Some (Dir (filter (\<lambda>item. fst item \<noteq> s) items))"
proof (induction xs arbitrary: fs)
  case Nil
  then show ?case by simp
next
  case (Cons x xs)
  from Cons.prems obtain its child where fs: "fs = Dir its" "map_of its x = Some child"
    "lookup child xs = Some (Dir items)"
    by (cases fs) (auto split: option.splits)
  obtain t ss where ts: "xs @ [s] = t # ss" by (cases "xs @ [s]") auto
  have "remove_at (x # xs @ [s]) fs = Dir (replace_entry x (remove_at (xs @ [s]) child) its)"
    unfolding fs(1) ts using fs(2) by simp
  then have "lookup (remove_at ((x # xs) @ [s]) fs) (x # xs)
               = lookup (remove_at (xs @ [s]) child) xs"
    using fs(2) by (simp add: map_of_replace_entry)
  with Cons.IH[OF fs(3)] show ?case by simp
qed


lemma rmSync_not_thrown:
  "fst (rmSync refusal p fs) = None \<Longrightarrow> snd (rmSync refusal p fs) = remove_at (resolve p) fs"
  by (auto simp: rmSync_def remove_at_missing split: if_splits option.splits)


lemma deleteTmpDirectory_quiet:
  assumes "snd (deleteTmpDirectory refusal d fs) = []"
  shows "deleteTmpDirectory refusal d fs = (remove_at (resolve (path_join [d, TMP_DIR])) fs, [])"
proof -
  obtain err fs' where r: "rmSync refusal (path_join [d, TMP_DIR]) fs = (err, fs')"
    by (cases "rmSync refusal (path_join [d, TMP_DIR]) fs")
  with assms have e: "err = None" by (cases err) (simp_all add: deleteTmpDirectory_def)
  from rmSync_not_thrown[of refusal "path_join [d, TMP_DIR]" fs] r e
  have "fs' = remove_at (resolve (path_join [d, TMP_DIR])) fs" by simp
  with r e show ?thesis by (simp add: deleteTmpDirectory_def)
qed

lemma deleteTmpDirectory_quiet_not_blocked:
  assumes "snd (deleteTmpDirectory refusal d fs) = []"
  shows "\<not> blocked fs (resolve (path_join [d, TMP_DIR]))"
proof
  assume "blocked fs (resolve (path_join [d, TMP_DIR]))"
  then have "snd (deleteTmpDirectory refusal d fs) = [FailedToDeleteTmpDirectory]"
    by (simp add: deleteTmpDirectory_def rmSync_def)
  with assms show False by simp
qed

lemma deleteTmpDirectory_gone:
  assumes "xs \<noteq> []" and "resolve (path_join [d, TMP_DIR]) = xs" and "\<not> blocked fs xs"
  shows "deleteTmpDirectory refusal d (remove_at xs fs) = (remove_at xs fs, [])"
proof -
  have g: "lookup (remove_at xs fs) xs = None" by (rule lookup_remove_at_self[OF assms(1)])
  have nb: "\<not> blocked (remove_at xs fs) xs" using assms(3) by (simp add: blocked_remove_at)
  show ?thesis using g nb by (simp add: deleteTmpDirectory_def rmSync_def assms(2))
qed

text \<open>
  C7, as the code has it. \<^verbatim>\<open>deleteTmpDirectory\<close> is the first step of the pipeline, and
  it catches what \<^verbatim>\<open>rmSync\<close> throws. When \<^verbatim>\<open>rmSync\<close> does not throw (nothing is written
  to the console), then on the disk it leaves the scratch directory \<^verbatim>\<open><outputDir>/.tmp\<close>
  does not exist, the output directory lists what it listed before except \<^verbatim>\<open>.tmp\<close>, and
  every path that is not in the scratch directory nor above it holds what it held; no
  path returned by the walk that follows lies in the scratch directory, so no file of a
  group of the first grouping pass does; and the whole run (final disk, console, calls of
  the upload tool) is the run on the disk from which the scratch directory has been removed
  beforehand, so nothing a previous run left there reaches a group of the second pass.
\<close>

theorem stale_scratch_never_seen:
  assumes "outputDir \<noteq> []" and "wf_node fs"
      and "snd (deleteTmpDirectory (rm_refusal env) outputDir fs) = []"
  shows "lookup (fst (deleteTmpDirectory (rm_refusal env) outputDir fs))
           (resolve (path_join [outputDir, TMP_DIR])) = None \<and>
         (\<forall>items. lookup fs (resolve outputDir) = Some (Dir items) \<longrightarrow>
            lookup (fst (deleteTmpDirectory (rm_refusal env) outputDir fs)) (resolve outputDir) =
              Some (Dir (filter (\<lambda>item. fst item \<noteq> TMP_DIR) items))) \<and>
         (\<forall>ys. \<not> prefix (resolve (path_join [outputDir, TMP_DIR])) ys \<and>
               \<not> prefix ys (resolve (path_join [outputDir, TMP_DIR])) \<longrightarrow>
            lookup (fst (deleteTmpDirectory (rm_refusal env) outputDir fs)) ys = lookup fs ys) \<and>
         (\<forall>files. getAssetPathsSync (fst (deleteTmpDirectory (rm_refusal env) outputDir fs)) outputDir
                    = Inr files \<longrightarrow>
            (\<forall>p \<in> set files. \<not> prefix (resolve (path_join [outputDir, TMP_DIR])) (resolve p)) \<and>
            (\<forall>groupedAssets key members. groupAssets files = Inr groupedAssets \<and>
               (key, members) \<in> set groupedAssets \<longrightarrow>
               (\<forall>p \<in> set members. \<not> prefix (resolve (path_join [outputDir, TMP_DIR])) (resolve p)))) \<and>
         pipeline env sentryProject outputDir msgs fs =
           pipeline env sentryProject outputDir msgs
             (remove_at (resolve (path_join [outputDir, TMP_DIR])) fs)"
proof -
  let ?t = "resolve (path_join [outputDir, TMP_DIR])"
  let ?fs1 = "fst (deleteTmpDirectory (rm_refusal env) outputDir fs)"
  have t: "?t = resolve outputDir @ [TMP_DIR]" by (rule resolve_tmp[OF assms(1)])
  then have tne: "?t \<noteq> []" by simp
  note q = deleteTmpDirectory_quiet[OF assms(3)]
  have fs1: "?fs1 = remove_at ?t fs" using q by simp
  have gone: "lookup ?fs1 ?t = None" unfolding fs1 by (rule lookup_remove_at_self[OF tne])
  have w1: "wf_node ?fs1" unfolding fs1 by (rule wf_remove_at[OF assms(2)])
  have parent: "\<forall>items. lookup fs (resolve outputDir) = Some (Dir items) \<longrightarrow>
            lookup ?fs1 (resolve outputDir) = Some (Dir (filter (\<lambda>item. fst item \<noteq> TMP_DIR) items))"
    unfolding fs1 t using lookup_remove_at_parent by blast
  have frame: "\<forall>ys. \<not> prefix ?t ys \<and> \<not> prefix ys ?t \<longrightarrow> lookup ?fs1 ys = lookup fs ys"
    unfolding fs1 using lookup_remove_at_other by blast
  have walk: "\<forall>files. getAssetPathsSync ?fs1 outputDir = Inr files \<longrightarrow>
            (\<forall>p \<in> set files. \<not> prefix ?t (resolve p)) \<and>
            (\<forall>groupedAssets key members. groupAssets files = Inr groupedAssets \<and>
               (key, members) \<in> set groupedAssets \<longrightarrow>
               (\<forall>p \<in> set members. \<not> prefix ?t (resolve p)))"
  proof (intro allI impI)
    fix files
    assume f: "getAssetPathsSync ?fs1 outputDir = Inr files"
    have a: "\<forall>p \<in> set files. \<not> prefix ?t (resolve p)"
    proof
      fix p
      assume p: "p \<in> set files"
      from getAssetPathsSync_sound[OF assms(1) w1 f p]
      obtain content where "lookup ?fs1 (resolve p) = Some (File content)" by blast
      then show "\<not> prefix ?t (resolve p)" using lookup_prefix_None[OF gone] by fastforce
    qed
    have b: "\<forall>groupedAssets key members. groupAssets files = Inr groupedAssets \<and>
               (key, members) \<in> set groupedAssets \<longrightarrow>
               (\<forall>p \<in> set members. \<not> prefix ?t (resolve p))"
    proof (intro allI impI ballI, elim conjE)
      fix groupedAssets key members p
      assume g: "groupAssets files = Inr groupedAssets" and m: "(key, members) \<in> set groupedAssets"
        and p: "p \<in> set members"
      from iffD1[OF groupAssets_member[OF g] m]
      have "members = filter (\<lambda>p. assetGroupName p = key) files" by blast
      with p have "p \<in> set files" by simp
      with a show "\<not> prefix ?t (resolve p)" by blast
    qed
    from a b show "(\<forall>p \<in> set files. \<not> prefix ?t (resolve p)) \<and>
            (\<forall>groupedAssets key members. groupAssets files = Inr groupedAssets \<and>
               (key, members) \<in> set groupedAssets \<longrightarrow>
               (\<forall>p \<in> set members. \<not> prefix ?t (resolve p)))" by blast
  qed
  have nb: "\<not> blocked fs ?t" by (rule deleteTmpDirectory_quiet_not_blocked[OF assms(3)])
  have same: "pipeline env sentryProject outputDir msgs fs =
           pipeline env sentryProject outputDir msgs (remove_at ?t fs)"
    by (simp only: pipeline_def q deleteTmpDirectory_gone[OF tne refl nb])
  show ?thesis using gone parent frame walk same by blast
qed

theorem stale_scratch_never_seen_witness:
  "wf_node stale_fs \<and>
   snd (deleteTmpDirectory (rm_refusal scenario_env) ''dist'' stale_fs) = [] \<and>
   lookup stale_fs (resolve (path_join [''dist'', TMP_DIR]))
     = Some (Dir [(''ios-update-id-old.js'', File ''stale'')]) \<and>
   lookup (fst (deleteTmpDirectory (rm_refusal scenario_env) ''dist'' stale_fs))
     (resolve (path_join [''dist'', TMP_DIR])) = None \<and>
   pipeline scenario_env None ''dist'' [] stale_fs =
     pipeline scenario_env None ''dist'' []
       (remove_at (resolve (path_join [''dist'', TMP_DIR])) stale_fs)"
proof -
  have a: "''dist'' \<noteq> []" by simp
  have b: "wf_node stale_fs" by code_simp
  have q: "snd (deleteTmpDirectory (rm_refusal scenario_env) ''dist'' stale_fs) = []" by code_simp
  have c: "lookup stale_fs (resolve (path_join [''dist'', TMP_DIR]))
     = Some (Dir [(''ios-update-id-old.js'', File ''stale'')])" by code_simp
  from stale_scratch_never_seen[OF a b q, of None "[]"] b q c show ?thesis by blast
qed

text \<open>
  When the operating system refuses the removal, \<^verbatim>\<open>deleteTmpDirectory\<close> writes the error to
  the console and the script goes on: the walk of the output directory enters \<^verbatim>\<open>.tmp\<close>, the
  file a previous run left there is a group of the first pass, and the second pass uploads
  it with the files staged by this run.
\<close>

theorem refused_removal_keeps_stale_files:
  "getAssetPathsSync (fst (deleteTmpDirectory (rm_refusal refused_env) ''dist'' stale_fs)) ''dist''
     = Inr [''dist/.tmp/ios-update-id-old.js'', ''dist/index.android.js'',
            ''dist/index.android.js.map''] \<and>
   main refused_env stale_fs =
     Done (Dir [(''dist'',
                 Dir [(''.tmp'',
                       Dir [(''ios-update-id-old.js'', File ''stale''),
                            (''android-update-id-u1.js'', File ''bundle''),
                            (''android-update-id-u1.js.map'', File ''map'')]),
                      (''index.android.js'', File ''bundle''),
                      (''index.android.js.map'', File ''map''),
                      (''eas-update-metadata.json'', File ''manifest'')])])
       [FailedToDeleteTmpDirectory, UploadedSuccessfully]
       [\<lparr>project = Some (JString ''my-project''), release = Undefined,
         debug_id_reference = False,
         targets = [''dist/.tmp/ios-update-id-old.js''],
         command = ''node_modules/@sentry/cli/bin/sentry-cli sourcemaps upload --release undefined  dist/.tmp/ios-update-id-old.js''\<rparr>,
        \<lparr>project = Some (JString ''my-project''), release = Undefined,
         debug_id_reference = False,
         targets = [''dist/.tmp/android-update-id-u1.js'',
                    ''dist/.tmp/android-update-id-u1.js.map''],
         command = ''node_modules/@sentry/cli/bin/sentry-cli sourcemaps upload --release undefined  dist/.tmp/android-update-id-u1.js dist/.tmp/android-update-id-u1.js.map''\<rparr>]"
  by code_simp

subsection \<open>Staging and correlation\<close>


lemma lookup_Cons_Dir:
  "lookup (Dir its) (y # ys) = (case map_of its y of None \<Rightarrow> None | Some c \<Rightarrow> lookup c ys)"
  by simp
































subsection \<open>The upload loop\<close>


lemma upload_loop_calls:
  "upload_loop cli p rt es made0 = (err, made) \<Longrightarrow>
   \<exists>n \<le> length es. made = made0 @ map (upload_invocation p rt) (take n es) \<and>
      (err = None \<longrightarrow> n = length es) \<and> (err = None \<or> err = Some CommandFailed)"
proof (induction es arbitrary: made0)
  case Nil
  then show ?case by simp
next
  case (Cons e es)
  show ?case
  proof (cases "cli (upload_invocation p rt e)")
    case True
    with Cons.prems have "upload_loop cli p rt es (made0 @ [upload_invocation p rt e]) = (err, made)"
      by (simp add: Let_def)
    from Cons.IH[OF this] obtain n where n: "n \<le> length es"
      "made = (made0 @ [upload_invocation p rt e]) @ map (upload_invocation p rt) (take n es)"
      "err = None \<longrightarrow> n = length es" "err = None \<or> err = Some CommandFailed" by blast
    then show ?thesis by (intro exI[of _ "Suc n"]) simp
  next
    case False
    with Cons.prems have "err = Some CommandFailed" "made = made0 @ [upload_invocation p rt e]"
      by (simp_all add: Let_def)
    then show ?thesis by (intro exI[of _ "Suc 0"]) simp
  qed
qed


















text \<open>
  C3, as the code has it. The upload loop has no check of the runtime lookup: for a
  group whose name has no entry in \<^verbatim>\<open>runtimesByAssetGroup\<close> the lookup is
  \<^verbatim>\<open>undefined\<close>, and the only failure of the loop is a failing call of the upload tool.
  When no call fails, the tool is called for that group, with \<^verbatim>\<open>undefined\<close> interpolated
  after \<^verbatim>\<open>--release\<close>.
\<close>

theorem upload_without_runtime_mapping:
  assumes "(groupName, assets) \<in> set (js_entries groupedTmpAssets)"
      and "js_get runtimes groupName = Undefined"
  shows "(fst (upload_all env sentryProject runtimes groupedTmpAssets) = None \<or>
          fst (upload_all env sentryProject runtimes groupedTmpAssets) = Some CommandFailed) \<and>
         (fst (upload_all env sentryProject runtimes groupedTmpAssets) = None \<longrightarrow>
            \<lparr>project = sentryProject, release = Undefined,
             debug_id_reference = isHermes assets, targets = assets,
             command = upload_command ''undefined'' (isHermes assets) assets\<rparr>
              \<in> set (snd (upload_all env sentryProject runtimes groupedTmpAssets)))"
proof -
  obtain err made where r: "upload_all env sentryProject runtimes groupedTmpAssets = (err, made)"
    by (cases "upload_all env sentryProject runtimes groupedTmpAssets")
  then obtain n where n: "n \<le> length (js_entries groupedTmpAssets)"
    "made = map (upload_invocation sentryProject runtimes) (take n (js_entries groupedTmpAssets))"
    "err = None \<longrightarrow> n = length (js_entries groupedTmpAssets)"
    "err = None \<or> err = Some CommandFailed"
    unfolding upload_all_def using upload_loop_calls[of _ _ _ _ "[]"] by fastforce
  have "upload_invocation sentryProject runtimes (groupName, assets) =
        \<lparr>project = sentryProject, release = Undefined,
         debug_id_reference = isHermes assets, targets = assets,
         command = upload_command ''undefined'' (isHermes assets) assets\<rparr>"
    using assms(2) by (simp add: upload_invocation_def release_text_def)
  moreover have "err = None \<Longrightarrow>
      upload_invocation sentryProject runtimes (groupName, assets) \<in> set made"
    using n(2,3) assms(1) by simp
  ultimately show ?thesis using r n(4) by auto
qed

theorem upload_without_runtime_mapping_witness:
  "(''dist/.tmp/android-update-id-u1.js'', [''dist/.tmp/android-update-id-u1.js''])
     \<in> set (js_entries [(''dist/.tmp/android-update-id-u1.js'', [''dist/.tmp/android-update-id-u1.js''])]) \<and>
   js_get [(''android-update-id-u1.js'', ''1.2.0'')] ''dist/.tmp/android-update-id-u1.js'' = Undefined \<and>
   fst (upload_all scenario_env None [(''android-update-id-u1.js'', ''1.2.0'')]
          [(''dist/.tmp/android-update-id-u1.js'', [''dist/.tmp/android-update-id-u1.js''])]) = None \<and>
   \<lparr>project = None, release = Undefined,
    debug_id_reference = isHermes [''dist/.tmp/android-update-id-u1.js''],
    targets = [''dist/.tmp/android-update-id-u1.js''],
    command = upload_command ''undefined'' (isHermes [''dist/.tmp/android-update-id-u1.js''])
                [''dist/.tmp/android-update-id-u1.js'']\<rparr>
     \<in> set (snd (upload_all scenario_env None [(''android-update-id-u1.js'', ''1.2.0'')]
          [(''dist/.tmp/android-update-id-u1.js'', [''dist/.tmp/android-update-id-u1.js''])]))"
proof -
  have m: "(''dist/.tmp/android-update-id-u1.js'', [''dist/.tmp/android-update-id-u1.js''])
     \<in> set (js_entries [(''dist/.tmp/android-update-id-u1.js'', [''dist/.tmp/android-update-id-u1.js''])])"
    by code_simp
  have u: "js_get [(''android-update-id-u1.js'', ''1.2.0'')] ''dist/.tmp/android-update-id-u1.js'' = Undefined"
    by code_simp
  have ok: "fst (upload_all scenario_env None [(''android-update-id-u1.js'', ''1.2.0'')]
          [(''dist/.tmp/android-update-id-u1.js'', [''dist/.tmp/android-update-id-u1.js''])]) = None"
    by code_simp
  from upload_without_runtime_mapping[OF m u, of scenario_env None] m u ok show ?thesis by blast
qed

text \<open>
  The claim C3 fails on the groups the script builds for \<^const>\<open>scenario_fs\<close>: the staged
  group has no entry in \<^verbatim>\<open>runtimesByAssetGroup\<close>, the loop does not fail and the upload
  tool is called for the group.
\<close>

theorem missing_runtime_still_uploads:
  "js_get [(''android-update-id-u1.bundle'', ''1.2.0'')] ''dist/.tmp/android-update-id-u1.bundle''
     = Undefined \<and>
   upload_all scenario_env (Some (JString ''my-project''))
     [(''android-update-id-u1.bundle'', ''1.2.0'')]
     [(''dist/.tmp/android-update-id-u1.bundle'', [''dist/.tmp/android-update-id-u1.bundle.map''])]
   = (None,
      [\<lparr>project = Some (JString ''my-project''), release = Undefined,
        debug_id_reference = False,
        targets = [''dist/.tmp/android-update-id-u1.bundle.map''],
        command = ''node_modules/@sentry/cli/bin/sentry-cli sourcemaps upload --release undefined  dist/.tmp/android-update-id-u1.bundle.map''\<rparr>])"
  by code_simp

subsection \<open>Whole runs\<close>

text \<open>
  C1 on the scenario of the specification. One group is matched and staged; the second
  grouping pass names it by its path under \<^verbatim>\<open>dist/.tmp\<close>, while
  \<^verbatim>\<open>runtimesByAssetGroup\<close> holds the bare name \<^verbatim>\<open>android-update-id-u1.bundle\<close>, so the
  lookup is \<^verbatim>\<open>undefined\<close> and the release passed to the upload tool is not \<^verbatim>\<open>1.2.0\<close>.
\<close>

theorem scenario_release_undefined:
  "main scenario_env scenario_fs =
     Done (Dir [(''dist'',
           Dir [(''app.js'', File ''bundle''),
                (''app.js.map'', File ''map of app.js''),
                (''index.android.bundle'', File ''android bundle''),
                (''index.android.bundle.map'', File ''map of android bundle''),
                (''eas-update-metadata.json'', File ''manifest''),
                (''.tmp'', Dir [(''android-update-id-u1.bundle.map'', File ''map of android bundle'')])])])
       [UploadedSuccessfully]
       [\<lparr>project = Some (JString ''my-project''), release = Undefined,
         debug_id_reference = False,
         targets = [''dist/.tmp/android-update-id-u1.bundle.map''],
         command = ''node_modules/@sentry/cli/bin/sentry-cli sourcemaps upload --release undefined  dist/.tmp/android-update-id-u1.bundle.map''\<rparr>]"
  by code_simp

text \<open>
  C8 on a configuration from which no project identifier can be resolved: the plugin
  entry is found, its properties have no \<^verbatim>\<open>project\<close>, and the script goes on with
  \<^verbatim>\<open>sentryProject\<close> undefined: it deletes the old \<^verbatim>\<open>.tmp\<close>, stages and uploads.
\<close>

theorem missing_project_property_continues:
  "main unresolved_project_env stale_fs =
     Done (Dir [(''dist'',
           Dir [(''index.android.js'', File ''bundle''),
                (''index.android.js.map'', File ''map''),
                (''eas-update-metadata.json'', File ''manifest''),
                (''.tmp'', Dir [(''android-update-id-u1.js'', File ''bundle''),
                               (''android-update-id-u1.js.map'', File ''map'')])])])
       [FetchingProjectFromExpoConfig, ProjectResolvedFromExpoConfig None, UploadedSuccessfully]
       [\<lparr>project = None, release = Undefined, debug_id_reference = False,
         targets = [''dist/.tmp/android-update-id-u1.js'',
                    ''dist/.tmp/android-update-id-u1.js.map''],
         command = ''node_modules/@sentry/cli/bin/sentry-cli sourcemaps upload --release undefined  dist/.tmp/android-update-id-u1.js dist/.tmp/android-update-id-u1.js.map''\<rparr>]"
  by code_simp

subsection \<open>A sourcemap without its bundle\<close>




















end
